theory Spec2Isabelle
  imports Main
begin

section \<open>Events\<close>

text \<open>
  The event classes of \<^verbatim>\<open>engine.py\<close>: the superclass \<^verbatim>\<open>Event\<close> and its four
  subclasses. An event carries nothing but its class and the \<^verbatim>\<open>name\<close> attribute
  that the constructor sets, so \<^verbatim>\<open>isinstance(event, DrawEvent)\<close> is equality with
  the constructor \<open>DrawEvent\<close>.
\<close>

datatype event = Event | DrawEvent | UpdateEvent | QuitEvent | QuitCleanupEvent

fun name :: "event \<Rightarrow> string" where
  "name Event = ''Generic Event''"
| "name DrawEvent = ''Draw Event''"
| "name UpdateEvent = ''Update Event''"
| "name QuitEvent = ''Quit Event''"
| "name QuitCleanupEvent = ''Cleanup Event''"

section \<open>Listeners and the world\<close>

text \<open>
  A listener is any object with a \<^verbatim>\<open>Notify\<close> method, an instance of an ordinary
  class: hashable by identity and weakly referenceable. Objects are addressed by their
  identity, a number. The source has three classes of listeners. Every other listener
  (a test double, a game entity) is a \<open>Script\<close>: what its
  \<^verbatim>\<open>Notify\<close> does is the list of steps \<open>f n e\<close> it takes when it is notified of
  \<open>e\<close> for the \<open>n\<close>-th time (counting from 0); the object keeps the count. A step is a
  call on the event manager, or \<open>Release l\<close>: the handler makes the owners of the
  listener \<open>l\<close> let go of it (it removes \<open>l\<close> from the collection that held it), so that
  nothing but the frames of the calls in progress keeps \<open>l\<close> alive. The view and the two
  controllers of the source are held by the locals of \<^verbatim>\<open>main\<close> for as long as
  \<^verbatim>\<open>Run\<close> runs, so only a script can be released.
\<close>

datatype action = Register nat | Unregister nat | PostAct event | Release nat

datatype listener =
    PygameView
  | PygameController
  | TickController (running: bool)
  | Script nat "nat \<Rightarrow> event \<Rightarrow> action list"

text \<open>The types of the events that \<^verbatim>\<open>pygame.event.get()\<close> returns.\<close>

datatype pygame_event = QUIT | OTHER

text \<open>
  What an execution leaves behind, in order: every call of \<^verbatim>\<open>Post\<close> and every call
  of \<^verbatim>\<open>Notify\<close> that a \<^verbatim>\<open>Post\<close> makes, both with the number of nested broadcasts
  the call stack still admits at that point (which tells the calls of one broadcast
  from those of the broadcasts nested in it), every \<^verbatim>\<open>clock.tick\<close>, the two
  effects of the view on the display, and what the handlers of the scripts do to the
  registry and to the listeners: a call of \<^verbatim>\<open>RegisterListener\<close>, a call of
  \<^verbatim>\<open>UnregisterListener\<close>, a release. The record of a call of \<^verbatim>\<open>Notify\<close> is
  written by \<^verbatim>\<open>Notify\<close> itself, as its first step.
\<close>

datatype obs =
    Posted nat event
  | Notified nat nat event
  | ClockTick nat
  | DrawBackground
  | PygameQuit
  | Registered nat
  | Unregistered nat
  | Released nat

text \<open>
  The world: the objects that are alive, addressed by identity; the entry table of the
  dictionary inside \<^verbatim>\<open>EventManager.listeners\<close> (a \<^verbatim>\<open>WeakKeyDictionary\<close>), in
  insertion order, where a deleted entry leaves a hole as it does in CPython's table; the
  lists that the coming calls of \<^verbatim>\<open>pygame.event.get()\<close> return; the trace; the
  listeners that the loops of the broadcasts in progress hold in their variable
  \<^verbatim>\<open>listener\<close>, innermost first; the listeners among them whose owners have let go,
  which live only as long as a loop holds them; and whether pygame and its display are
  up, that is, \<^verbatim>\<open>pygame.init()\<close> has run with the window made and \<^verbatim>\<open>pygame.quit()\<close>
  has not run since.
\<close>

record world =
  heap :: "nat \<Rightarrow> listener option"
  data :: "(nat \<times> int) option list"
  queue :: "pygame_event list list"
  log :: "obs list"
  pins :: "nat list"
  orphans :: "nat list"
  pygame_up :: bool

text \<open>
  The exceptions. \<open>RuntimeError\<close> is an instance of \<^verbatim>\<open>RuntimeError\<close> itself, which is
  what the dictionary's iterator raises (``dictionary changed size during iteration'').
  \<^verbatim>\<open>RecursionError\<close> and \<^verbatim>\<open>pygame.error\<close> are subclasses of \<^verbatim>\<open>RuntimeError\<close>,
  so a handler \<^verbatim>\<open>except RuntimeError\<close> catches all three: \<open>isinstance_RuntimeError\<close>.
\<close>

datatype error = RuntimeError | RecursionError | PygameError | TypeError

fun isinstance_RuntimeError :: "error \<Rightarrow> bool" where
  "isinstance_RuntimeError RuntimeError = True"
| "isinstance_RuntimeError RecursionError = True"
| "isinstance_RuntimeError PygameError = True"
| "isinstance_RuntimeError TypeError = False"

text \<open>A call returns, or raises with the world as it is at that moment.\<close>

datatype outcome = Ok world | Raised error world

fun world_of :: "outcome \<Rightarrow> world" where
  "world_of (Ok w) = w"
| "world_of (Raised e w) = w"

fun returned :: "outcome \<Rightarrow> bool" where
  "returned (Ok w) = True"
| "returned (Raised e w) = False"

fun raised :: "outcome \<Rightarrow> error option" where
  "raised (Ok w) = None"
| "raised (Raised e w) = Some e"

section \<open>The weak-key dictionary\<close>

text \<open>
  \<^verbatim>\<open>WeakKeyDictionary\<close> as the \<^verbatim>\<open>weakref\<close> module of Python 3 has it: a
  dictionary \<^verbatim>\<open>data\<close> from weak references to values; \<^verbatim>\<open>keys()\<close> is a generator
  that walks \<^verbatim>\<open>data\<close> itself and yields the referents that are alive; the callback
  of a weak reference deletes its entry when the referent is reclaimed, at once when no
  iteration is in progress, and otherwise when the outermost iteration ends
  (\<^verbatim>\<open>_pending_removals\<close>), the dead entry staying in \<^verbatim>\<open>data\<close> until then. The dictionary
  underneath is CPython's: an entry table in insertion order, in which a deleted entry
  leaves a hole, and an iterator that raises \<^verbatim>\<open>RuntimeError\<close> when the dictionary has
  changed size since the iteration began. The table is not compacted here; compaction
  only matters to an iteration during which entries are both added and removed.

  The keys stored in the table, dead or alive, in table order:
\<close>

fun entry_keys :: "(nat \<times> int) option list \<Rightarrow> nat list" where
  "entry_keys [] = []"
| "entry_keys (None # es) = entry_keys es"
| "entry_keys (Some (k, v) # es) = k # entry_keys es"

text \<open>The number of entries in use: \<^verbatim>\<open>ma_used\<close> of the dictionary.\<close>

definition used :: "(nat \<times> int) option list \<Rightarrow> nat" where
  "used es = length (entry_keys es)"

text \<open>
  \<^verbatim>\<open>d[k] = v\<close>: an existing key keeps its place and takes the new value, a new key
  goes to the end of the table.
\<close>

fun setitem :: "(nat \<times> int) option list \<Rightarrow> nat \<Rightarrow> int \<Rightarrow> (nat \<times> int) option list" where
  "setitem [] k v = [Some (k, v)]"
| "setitem (None # es) k v = None # setitem es k v"
| "setitem (Some (k', v') # es) k v =
     (if k' = k then Some (k, v) # es else Some (k', v') # setitem es k v)"

text \<open>\<^verbatim>\<open>del d[k]\<close> for a key that is present: its entry becomes a hole.\<close>

fun delitem :: "(nat \<times> int) option list \<Rightarrow> nat \<Rightarrow> (nat \<times> int) option list" where
  "delitem [] k = []"
| "delitem (None # es) k = None # delitem es k"
| "delitem (Some (k', v') # es) k =
     (if k' = k then None # es else Some (k', v') # delitem es k)"

text \<open>
  \<^verbatim>\<open>WeakKeyDictionary.keys()\<close> run to its end: the keys whose referent is alive.
\<close>

definition keys :: "world \<Rightarrow> nat list" where
  "keys w = filter (\<lambda>k. heap w k \<noteq> None) (entry_keys (data w))"

text \<open>
  The iterator over the underlying dictionary: the size of the dictionary when the
  iterator was made, the position in the table, and the number of keys still to come.
\<close>

record dictiter =
  di_used :: nat
  di_pos :: nat
  len :: nat

definition dictiter_new :: "(nat \<times> int) option list \<Rightarrow> dictiter" where
  "dictiter_new es = \<lparr>di_used = used es, di_pos = 0, len = used es\<rparr>"

text \<open>The first entry in use of \<open>es\<close>, whose head has position \<open>i\<close> in the table.\<close>

fun first_entry :: "(nat \<times> int) option list \<Rightarrow> nat \<Rightarrow> (nat \<times> nat) option" where
  "first_entry [] i = None"
| "first_entry (None # es) i = first_entry es (Suc i)"
| "first_entry (Some (k, v) # es) i = Some (i, k)"

definition next_entry :: "(nat \<times> int) option list \<Rightarrow> nat \<Rightarrow> (nat \<times> nat) option" where
  "next_entry es pos = first_entry (drop pos es) pos"

section \<open>EventManager\<close>

text \<open>\<^verbatim>\<open>self.listeners[ listener ] = 1\<close>\<close>

definition RegisterListener :: "nat \<Rightarrow> world \<Rightarrow> world" where
  "RegisterListener listener w = w\<lparr>data := setitem (data w) listener 1\<rparr>"

text \<open>
  \<^verbatim>\<open>if listener in self.listeners.keys(): del self.listeners[ listener ]\<close>
\<close>

definition UnregisterListener :: "nat \<Rightarrow> world \<Rightarrow> world" where
  "UnregisterListener listener w =
     (if listener \<in> set (keys w) then w\<lparr>data := delitem (data w) listener\<rparr> else w)"

text \<open>
  The object \<open>l\<close> is reclaimed, outside any broadcast, because its last owner has let go
  of it. The dictionary holds a weak reference only, whose callback deletes the entry.
\<close>

definition reclaim :: "nat \<Rightarrow> world \<Rightarrow> world" where
  "reclaim l w = w\<lparr>heap := (heap w)(l := None), data := delitem (data w) l\<rparr>"

text \<open>The bus calls that \<^verbatim>\<open>PygameController.Notify\<close> makes for the polled events:
  one \<^verbatim>\<open>Post(QuitEvent())\<close> for each event of type \<^verbatim>\<open>QUIT\<close>.\<close>

fun controller_posts :: "pygame_event list \<Rightarrow> action list" where
  "controller_posts [] = []"
| "controller_posts (QUIT # es) = PostAct QuitEvent # controller_posts es"
| "controller_posts (OTHER # es) = controller_posts es"

text \<open>\<^verbatim>\<open>pygame.event.get()\<close>: the pending events, which leave the queue.\<close>

fun event_get :: "world \<Rightarrow> pygame_event list \<times> world" where
  "event_get w =
     (case queue w of [] \<Rightarrow> ([], w) | es # rest \<Rightarrow> (es, w\<lparr>queue := rest\<rparr>))"

definition logged :: "obs \<Rightarrow> world \<Rightarrow> world" where
  "logged x w = w\<lparr>log := log w @ [x]\<rparr>"

text \<open>
  The loop binds its variable \<^verbatim>\<open>listener\<close> to \<open>l\<close>, which the generator has got from
  its weak reference. A listener that is alive while no frame holds it has an owner. The
  variables that hold a listener also tell that an iteration over the dictionary is in
  progress: handlers run only while the loop that called them holds their listener.
\<close>

definition pin :: "nat \<Rightarrow> world \<Rightarrow> world" where
  "pin l w =
     w\<lparr>pins := l # pins w,
       orphans := (if l \<in> set (pins w) then orphans w else removeAll l (orphans w))\<rparr>"

text \<open>
  The loop lets go of \<open>l\<close>: its variable is bound to the next listener, or the call of
  \<^verbatim>\<open>Post\<close> ends. A script whose owners have let go and that no other loop holds is
  reclaimed then. The callback of its weak reference leaves the dead entry in the table
  for the end of the iteration. (CPython lets go when the next live listener has been
  found; no handler runs between the return of \<^verbatim>\<open>Notify\<close> and that moment.)
\<close>

definition unpin :: "nat \<Rightarrow> world \<Rightarrow> world" where
  "unpin l w =
     (case heap w l of
        Some (Script n f) \<Rightarrow>
          (if l \<in> set (orphans w) \<and> l \<notin> set (remove1 l (pins w))
           then w\<lparr>pins := remove1 l (pins w), heap := (heap w)(l := None),
                  orphans := removeAll l (orphans w)\<rparr>
           else w\<lparr>pins := remove1 l (pins w)\<rparr>)
      | _ \<Rightarrow> w\<lparr>pins := remove1 l (pins w)\<rparr>)"

text \<open>
  A handler makes the owners of the script \<open>l\<close> let go of it. While a loop holds \<open>l\<close> it
  lives on. Otherwise it is reclaimed at once: during an iteration its entry stays in the
  table, and with no iteration in progress the callback deletes it.
\<close>

definition let_go :: "nat \<Rightarrow> world \<Rightarrow> world" where
  "let_go l w =
     (case heap w l of
        Some (Script n f) \<Rightarrow>
          (if l \<in> set (pins w) then w\<lparr>orphans := l # orphans w\<rparr>
           else if pins w = [] then reclaim l w
           else w\<lparr>heap := (heap w)(l := None)\<rparr>)
      | _ \<Rightarrow> w)"

text \<open>
  \<^verbatim>\<open>_commit_removals\<close>, when the generator \<^verbatim>\<open>keys()\<close> ends and no other iteration
  is in progress: the entries of the listeners that have died are deleted.
\<close>

definition commit_removals :: "world \<Rightarrow> world" where
  "commit_removals w =
     (if pins w = []
      then w\<lparr>data := map (\<lambda>en. case en of
                                None \<Rightarrow> None
                              | Some (k, v) \<Rightarrow> if heap w k = None then None else Some (k, v))
                        (data w)\<rparr>
      else w)"

text \<open>The loop has run to its end: the generator is exhausted and commits the removals.\<close>

fun leave :: "outcome \<Rightarrow> outcome" where
  "leave (Ok w) = Ok (commit_removals w)"
| "leave (Raised e w) = Raised e w"

text \<open>
  \<^verbatim>\<open>Post\<close> with the \<^verbatim>\<open>Notify\<close> methods it reaches. \<open>Post d event w\<close> is a call of
  \<^verbatim>\<open>Post\<close> at a point where the interpreter's stack admits \<open>d\<close> more broadcasts nested
  in this one; a \<^verbatim>\<open>Post\<close> from a handler when none is left raises
  \<^verbatim>\<open>RecursionError\<close>.

  \<open>for_keys\<close> is the loop \<^verbatim>\<open>for listener in self.listeners.keys()\<close>. The generator
  \<^verbatim>\<open>keys()\<close> walks the dictionary itself: each step first compares the size of the
  dictionary with the size it had when the iteration began and raises
  \<^verbatim>\<open>RuntimeError\<close> when they differ, then takes the next entry in use (raising when
  it finds one after it has handed out as many as there were at the beginning), and
  passes over a key whose referent is dead. The generator ends when the dictionary is
  exhausted and when the iterator of the dictionary raises, and commits the removals
  then; an exception of a handler leaves it suspended.

  \<open>Notify d self event w\<close> is \<^verbatim>\<open>self.Notify(event)\<close>, by the class of \<open>self\<close>. The view
  draws on the display, which raises \<^verbatim>\<open>pygame.error\<close> when pygame is not up; so does
  \<^verbatim>\<open>pygame.event.get()\<close> in the controller.
\<close>

function (sequential)
    Post :: "nat \<Rightarrow> event \<Rightarrow> world \<Rightarrow> outcome"
and for_keys :: "nat \<Rightarrow> event \<Rightarrow> dictiter \<Rightarrow> world \<Rightarrow> outcome"
and Notify :: "nat \<Rightarrow> nat \<Rightarrow> event \<Rightarrow> world \<Rightarrow> outcome"
and perform :: "nat \<Rightarrow> action list \<Rightarrow> world \<Rightarrow> outcome"
where
  "Post d event w =
     leave (for_keys d event (dictiter_new (data w)) (logged (Posted d event) w))"
| "for_keys d event it w =
     (if used (data w) \<noteq> di_used it then Raised RuntimeError (commit_removals w)
      else case next_entry (data w) (di_pos it) of
        None \<Rightarrow> Ok w
      | Some (i, listener) \<Rightarrow>
         (case len it of
            0 \<Rightarrow> Raised RuntimeError (commit_removals w)
          | Suc n \<Rightarrow>
             (case heap w listener of
                None \<Rightarrow> for_keys d event \<lparr>di_used = di_used it, di_pos = Suc i, len = n\<rparr> w
              | Some obj \<Rightarrow>
                 (case Notify d listener event (pin listener w) of
                    Ok w' \<Rightarrow>
                      for_keys d event \<lparr>di_used = di_used it, di_pos = Suc i, len = n\<rparr>
                        (unpin listener w')
                  | Raised e w' \<Rightarrow> Raised e w'))))"
| "Notify d self event w =
     (case heap w self of
        None \<Rightarrow> Ok w
      | Some PygameView \<Rightarrow>
          (if event = DrawEvent
           then (if pygame_up w
                 then Ok (logged DrawBackground (logged (Notified d self event) w))
                 else Raised PygameError (logged (Notified d self event) w))
           else if event = QuitCleanupEvent
           then Ok (logged PygameQuit ((logged (Notified d self event) w)\<lparr>pygame_up := False\<rparr>))
           else Ok (logged (Notified d self event) w))
      | Some PygameController \<Rightarrow>
          (if event = UpdateEvent
           then (if pygame_up w
                 then (case event_get (logged (Notified d self event) w) of
                         (es, w1) \<Rightarrow> perform d (controller_posts es) w1)
                 else Raised PygameError (logged (Notified d self event) w))
           else Ok (logged (Notified d self event) w))
      | Some (TickController r) \<Rightarrow>
          (if event = QuitEvent
           then Ok ((logged (Notified d self event) w)\<lparr>heap := (heap w)(self \<mapsto> TickController False)\<rparr>)
           else Ok (logged (Notified d self event) w))
      | Some (Script n f) \<Rightarrow>
          perform d (f n event)
            ((logged (Notified d self event) w)\<lparr>heap := (heap w)(self \<mapsto> Script (Suc n) f)\<rparr>))"
| "perform d [] w = Ok w"
| "perform d (Register l # as) w = perform d as (RegisterListener l (logged (Registered l) w))"
| "perform d (Unregister l # as) w =
     perform d as (UnregisterListener l (logged (Unregistered l) w))"
| "perform d (Release l # as) w = perform d as (let_go l (logged (Released l) w))"
| "perform d (PostAct e # as) w =
     (case d of
        0 \<Rightarrow> Raised RecursionError w
      | Suc d' \<Rightarrow>
         (case Post d' e w of
            Ok w' \<Rightarrow> perform d as w'
          | Raised err w' \<Rightarrow> Raised err w'))"
  by pat_completeness auto

termination
  by (relation "inv_image (less_than <*lex*> less_than <*lex*> less_than)
      (\<lambda>x. case x of
          Inl (Inl (d, event, w)) \<Rightarrow> (d, 3, 0)
        | Inl (Inr (d, event, it, w)) \<Rightarrow> (d, 2, len it)
        | Inr (Inl (d, self, event, w)) \<Rightarrow> (d, 1, 0)
        | Inr (Inr (d, as, w)) \<Rightarrow> (d, 0, length as))")
     auto

text \<open>
  Modelled on the words of the specification: \<^verbatim>\<open>Notify(event)\<close> is called once on each
  listener of the list \<open>ls\<close>, in order, each held while it is notified; the first call
  that raises ends it. This is what a broadcast over a snapshot \<open>ls\<close> of the registry
  would be.
\<close>

fun notify_each :: "nat \<Rightarrow> event \<Rightarrow> nat list \<Rightarrow> world \<Rightarrow> outcome" where
  "notify_each d event [] w = Ok w"
| "notify_each d event (l # ls) w =
     (case Notify d l event (pin l w) of
        Ok w' \<Rightarrow> notify_each d event ls (unpin l w')
      | Raised e w' \<Rightarrow> Raised e w')"

section \<open>The views and controllers\<close>

text \<open>
  The constructors. Each stores the event manager and registers the new object \<open>self\<close>
  with it. The view then brings pygame and the window up and draws the background.
\<close>

definition PygameView_init :: "nat \<Rightarrow> world \<Rightarrow> world" where
  "PygameView_init self w =
     logged DrawBackground
       ((RegisterListener self (w\<lparr>heap := (heap w)(self \<mapsto> PygameView)\<rparr>))\<lparr>pygame_up := True\<rparr>)"

definition PygameController_init :: "nat \<Rightarrow> world \<Rightarrow> world" where
  "PygameController_init self w =
     RegisterListener self (w\<lparr>heap := (heap w)(self \<mapsto> PygameController)\<rparr>)"

definition TickController_init :: "nat \<Rightarrow> world \<Rightarrow> world" where
  "TickController_init self w =
     RegisterListener self (w\<lparr>heap := (heap w)(self \<mapsto> TickController True)\<rparr>)"

text \<open>
  \<^verbatim>\<open>self.clock.tick(30)\<close>. The clock brings up the timer it needs by itself, so it
  does not depend on pygame being up.
\<close>

definition tick :: "world \<Rightarrow> outcome" where
  "tick w = Ok (logged (ClockTick 30) w)"

text \<open>Sequencing of calls: a raised error ends the sequence.\<close>

fun and_then :: "outcome \<Rightarrow> (world \<Rightarrow> outcome) \<Rightarrow> outcome" where
  "and_then (Ok w) f = f w"
| "and_then (Raised e w) f = Raised e w"

text \<open>The body of the loop of \<^verbatim>\<open>TickController.Run\<close>.\<close>

definition loop_body :: "nat \<Rightarrow> world \<Rightarrow> outcome" where
  "loop_body d w =
     and_then (and_then (and_then (and_then (Post d UpdateEvent w)
       (Post d DrawEvent)) tick) (Post d DrawEvent)) tick"

text \<open>
  \<^verbatim>\<open>while self.running:\<close> with its body. The loop need not end, so it is a partial
  function: \<open>None\<close> is the loop that runs forever. \<^verbatim>\<open>Run\<close> is a method of
  \<^verbatim>\<open>TickController\<close>; on anything else it is a type error.
\<close>

partial_function (option) run_loop :: "nat \<Rightarrow> nat \<Rightarrow> world \<Rightarrow> outcome option" where
  "run_loop d self w =
     (case heap w self of
        Some (TickController r) \<Rightarrow>
          (if r then (case loop_body d w of
                        Ok w' \<Rightarrow> run_loop d self w'
                      | Raised e w' \<Rightarrow> Some (Raised e w'))
           else Some (Ok w))
      | _ \<Rightarrow> Some (Raised TypeError w))"

definition Run :: "nat \<Rightarrow> nat \<Rightarrow> world \<Rightarrow> outcome option" where
  "Run d self w =
     (case run_loop d self w of
        None \<Rightarrow> None
      | Some r \<Rightarrow> Some (and_then r (Post d QuitCleanupEvent)))"

text \<open>
  \<^verbatim>\<open>main()\<close>: a fresh event manager, then the controller, the spinner and the view, as
  objects 0, 1 and 2, then \<^verbatim>\<open>spinner.Run()\<close>. The parameters are what the outside
  provides: the stack's budget and the input that pygame will deliver.
\<close>

definition fresh :: "pygame_event list list \<Rightarrow> world" where
  "fresh q =
     \<lparr>heap = (\<lambda>l. None), data = [], queue = q, log = [], pins = [], orphans = [],
      pygame_up = False\<rparr>"

definition main_setup :: "pygame_event list list \<Rightarrow> world" where
  "main_setup q = PygameView_init 2 (TickController_init 1 (PygameController_init 0 (fresh q)))"

definition main :: "nat \<Rightarrow> pygame_event list list \<Rightarrow> outcome option" where
  "main d q = Run d 1 (main_setup q)"

section \<open>Reading the trace\<close>

text \<open>What has been added to the trace between the world \<open>w\<close> and the later \<open>w'\<close>.\<close>

definition since :: "world \<Rightarrow> world \<Rightarrow> obs list" where
  "since w w' = drop (length (log w)) (log w')"

text \<open>
  The calls of \<^verbatim>\<open>Notify\<close> made by the broadcasts running with budget \<open>d\<close>, in order:
  the listener and the event handed to it.
\<close>

fun direct :: "nat \<Rightarrow> obs list \<Rightarrow> (nat \<times> event) list" where
  "direct d [] = []"
| "direct d (Notified d' l e # xs) = (if d' = d then (l, e) # direct d xs else direct d xs)"
| "direct d (Posted d' e # xs) = direct d xs"
| "direct d (ClockTick n # xs) = direct d xs"
| "direct d (DrawBackground # xs) = direct d xs"
| "direct d (PygameQuit # xs) = direct d xs"
| "direct d (Registered l # xs) = direct d xs"
| "direct d (Unregistered l # xs) = direct d xs"
| "direct d (Released l # xs) = direct d xs"

text \<open>The events that the listener \<open>l\<close> has been notified of, by whatever broadcast.\<close>

fun seen :: "nat \<Rightarrow> obs list \<Rightarrow> event list" where
  "seen l [] = []"
| "seen l (Notified d' l' e # xs) = (if l' = l then e # seen l xs else seen l xs)"
| "seen l (Posted d' e # xs) = seen l xs"
| "seen l (ClockTick n # xs) = seen l xs"
| "seen l (DrawBackground # xs) = seen l xs"
| "seen l (PygameQuit # xs) = seen l xs"
| "seen l (Registered l' # xs) = seen l xs"
| "seen l (Unregistered l' # xs) = seen l xs"
| "seen l (Released l' # xs) = seen l xs"

text \<open>
  What the caller that holds budget \<open>d\<close> does itself: its calls of \<^verbatim>\<open>Post\<close> and of
  \<^verbatim>\<open>clock.tick\<close>.
\<close>

fun toplevel :: "nat \<Rightarrow> obs list \<Rightarrow> obs list" where
  "toplevel d [] = []"
| "toplevel d (Posted d' e # xs) = (if d' = d then Posted d' e # toplevel d xs else toplevel d xs)"
| "toplevel d (ClockTick n # xs) = ClockTick n # toplevel d xs"
| "toplevel d (Notified d' l e # xs) = toplevel d xs"
| "toplevel d (DrawBackground # xs) = toplevel d xs"
| "toplevel d (PygameQuit # xs) = toplevel d xs"
| "toplevel d (Registered l # xs) = toplevel d xs"
| "toplevel d (Unregistered l # xs) = toplevel d xs"
| "toplevel d (Released l # xs) = toplevel d xs"

text \<open>An entry that a handler called by a broadcast of budget \<open>d\<close> can leave.\<close>

fun nested :: "nat \<Rightarrow> obs \<Rightarrow> bool" where
  "nested d (Posted d' e) = (d' < d)"
| "nested d (Notified d' l e) = (d' < d)"
| "nested d (ClockTick n) = False"
| "nested d DrawBackground = True"
| "nested d PygameQuit = True"
| "nested d (Registered l) = True"
| "nested d (Unregistered l) = True"
| "nested d (Released l) = True"

text \<open>
  How an object can change while the bus runs: the dead stay dead, the living keep their
  class; a tick controller's flag can only fall; a script's count can only grow, and a
  script can be reclaimed.
\<close>

fun obj_le :: "listener option \<Rightarrow> listener option \<Rightarrow> bool" where
  "obj_le None y = (y = None)"
| "obj_le (Some PygameView) y = (y = Some PygameView)"
| "obj_le (Some PygameController) y = (y = Some PygameController)"
| "obj_le (Some (TickController r)) y = (y = Some (TickController r) \<or> y = Some (TickController False))"
| "obj_le (Some (Script n f)) y =
     (case y of None \<Rightarrow> True | Some (Script n' g) \<Rightarrow> n \<le> n' \<and> g = f | _ \<Rightarrow> False)"

definition evolves :: "world \<Rightarrow> world \<Rightarrow> bool" where
  "evolves w w' \<longleftrightarrow> (\<forall>l. obj_le (heap w l) (heap w' l)) \<and> (\<exists>xs. log w' = log w @ xs)"

text \<open>
  Nothing in the part \<open>xs\<close> of a trace tells of a handler that registered, unregistered
  or released a listener.
\<close>

fun mutation :: "obs \<Rightarrow> bool" where
  "mutation (Registered l) = True"
| "mutation (Unregistered l) = True"
| "mutation (Released l) = True"
| "mutation (Posted d e) = False"
| "mutation (Notified d l e) = False"
| "mutation (ClockTick n) = False"
| "mutation DrawBackground = False"
| "mutation PygameQuit = False"

fun calm :: "obs list \<Rightarrow> bool" where
  "calm [] = True"
| "calm (x # xs) = (\<not> mutation x \<and> calm xs)"

text \<open>
  The registry is in \<open>w'\<close> what it was in \<open>w\<close>: the same listeners registered and
  alive, the same objects alive, no listener newly without owner, and the same table
  when \<open>w\<close> is inside an iteration (at the end of the outermost one the dead entries
  leave the table).
\<close>

definition same_registry :: "world \<Rightarrow> world \<Rightarrow> bool" where
  "same_registry w w' \<longleftrightarrow>
     keys w' = keys w \<and> (\<forall>k. (heap w' k = None) = (heap w k = None)) \<and>
     set (orphans w') \<subseteq> set (orphans w) \<and> (pins w \<noteq> [] \<longrightarrow> data w' = data w)"

text \<open>
  The handlers of the scripts do nothing but call \<^verbatim>\<open>Post\<close>, and only with events
  from \<open>S\<close>: none of them registers, unregisters or releases a listener.
\<close>

definition posts_only :: "event set \<Rightarrow> world \<Rightarrow> bool" where
  "posts_only S w \<longleftrightarrow>
     (\<forall>l c f n e a. heap w l = Some (Script c f) \<longrightarrow> a \<in> set (f n e) \<longrightarrow> (\<exists>e' \<in> S. a = PostAct e'))"

text \<open>
  An entry that a handler can leave when the scripts post events from \<open>S\<close> only and
  the listeners registered and alive are those in \<open>K\<close>.
\<close>

fun entry_ok :: "event set \<Rightarrow> nat set \<Rightarrow> obs \<Rightarrow> bool" where
  "entry_ok S K (Posted d' e) = (e \<in> S)"
| "entry_ok S K (Notified d' l e) = (e \<in> S \<and> l \<in> K)"
| "entry_ok S K (ClockTick n) = True"
| "entry_ok S K DrawBackground = True"
| "entry_ok S K PygameQuit = True"
| "entry_ok S K (Registered l) = False"
| "entry_ok S K (Unregistered l) = False"
| "entry_ok S K (Released l) = False"

text \<open>
  The flag of the tick controller \<open>tc\<close> between two worlds: when it was true in \<open>w\<close>
  and is false in \<open>w'\<close>, the controller has been notified of a \<^verbatim>\<open>QuitEvent\<close> in
  between.
\<close>

definition quit_only :: "nat \<Rightarrow> world \<Rightarrow> world \<Rightarrow> bool" where
  "quit_only tc w w' \<longleftrightarrow>
     (heap w tc = Some (TickController True) \<and> heap w' tc = Some (TickController False) \<longrightarrow>
      (\<exists>d'. Notified d' tc QuitEvent \<in> set (since w w')))"

text \<open>
  The same, with the other half: the flag does not change otherwise, so a flag that is
  false stays false.
\<close>

definition falls_by_Quit :: "nat \<Rightarrow> world \<Rightarrow> world \<Rightarrow> bool" where
  "falls_by_Quit tc w w' \<longleftrightarrow>
     (\<forall>b. heap w tc = Some (TickController b) \<longrightarrow>
        heap w' tc = Some (TickController b) \<or>
        (b \<and> heap w' tc = Some (TickController False) \<and>
         (\<exists>d'. Notified d' tc QuitEvent \<in> set (since w w'))))"

text \<open>Both facts that the proofs carry through a run.\<close>

definition flag_ok :: "nat \<Rightarrow> world \<Rightarrow> world \<Rightarrow> bool" where
  "flag_ok tc w w' \<longleftrightarrow> evolves w w' \<and> quit_only tc w w'"

text \<open>
  Once the tick controller \<open>tc\<close> has been notified of a \<^verbatim>\<open>QuitEvent\<close> between \<open>w\<close>
  and \<open>w'\<close>, its flag is false in \<open>w'\<close>.
\<close>

definition quit_stops :: "nat \<Rightarrow> world \<Rightarrow> world \<Rightarrow> bool" where
  "quit_stops tc w w' \<longleftrightarrow>
     (\<forall>b. heap w tc = Some (TickController b) \<longrightarrow>
        (\<exists>d'. Notified d' tc QuitEvent \<in> set (since w w')) \<longrightarrow>
        heap w' tc = Some (TickController False))"

text \<open>
  Every \<^verbatim>\<open>Post\<close> of a \<^verbatim>\<open>QuitEvent\<close> between \<open>w\<close> and \<open>w'\<close> has notified the
  listener \<open>L\<close> of it.
\<close>

definition quit_reaches :: "nat \<Rightarrow> world \<Rightarrow> world \<Rightarrow> bool" where
  "quit_reaches L w w' \<longleftrightarrow>
     (\<forall>d'. Posted d' QuitEvent \<in> set (since w w') \<longrightarrow> Notified d' L QuitEvent \<in> set (since w w'))"

text \<open>A dictionary holds a key once.\<close>

definition wf_dict :: "world \<Rightarrow> bool" where
  "wf_dict w \<longleftrightarrow> distinct (entry_keys (data w))"

text \<open>
  \<open>iterations n d self w = Some w'\<close>: the loop of \<^verbatim>\<open>Run\<close>, entered in \<open>w\<close>, finds
  \<^verbatim>\<open>self.running\<close> true \<open>n\<close> times in a row, completes its body each time, and is then
  in \<open>w'\<close>, about to test the flag again.
\<close>

fun iterations :: "nat \<Rightarrow> nat \<Rightarrow> nat \<Rightarrow> world \<Rightarrow> world option" where
  "iterations 0 d self w = Some w"
| "iterations (Suc n) d self w =
     (if heap w self = Some (TickController True)
      then (case loop_body d w of Ok w' \<Rightarrow> iterations n d self w' | Raised e w' \<Rightarrow> None)
      else None)"

text \<open>What one pass through the body of the loop does itself.\<close>

definition body_trace :: "nat \<Rightarrow> obs list" where
  "body_trace d =
     [Posted d UpdateEvent, Posted d DrawEvent, ClockTick 30, Posted d DrawEvent, ClockTick 30]"

text \<open>
  The iterator \<open>it\<close> belongs to the dictionary as it is in \<open>w\<close>: the size it remembers is
  the dictionary's, and the keys it still owes are those from its position on.
\<close>

definition consistent :: "dictiter \<Rightarrow> world \<Rightarrow> bool" where
  "consistent it w \<longleftrightarrow> di_used it = used (data w) \<and>
     len it = length (entry_keys (drop (di_pos it) (data w)))"

section \<open>Worlds to run\<close>

text \<open>
  The world that \<^verbatim>\<open>main\<close> builds, in which the window is closed during the second
  poll, joined by a fourth listener that answers every \<^verbatim>\<open>DrawEvent\<close> by posting a
  generic \<^verbatim>\<open>Event\<close>.
\<close>

definition echo :: "nat \<Rightarrow> event \<Rightarrow> action list" where
  "echo n e = (if e = DrawEvent then [PostAct Event] else [])"

definition with_echo :: "world \<Rightarrow> world" where
  "with_echo w = RegisterListener 3 (w\<lparr>heap := (heap w)(3 \<mapsto> Script 0 echo)\<rparr>)"

definition demo :: world where
  "demo = with_echo (main_setup [[], [QUIT]])"

text \<open>The same with the window closed during the fifth poll, and during the first.\<close>

definition five :: world where
  "five = with_echo (main_setup [[], [], [], [], [QUIT]])"

definition quitting :: world where
  "quitting = with_echo (main_setup [[QUIT]])"

text \<open>
  Two listeners on a bus of their own, 0 and 1, and a third object 2 that is alive but
  not registered. Listener 1 does nothing. In \<open>growing\<close> the handler of listener 0
  registers object 2, as the constructor of a view or controller made inside a handler
  would; in \<open>shrinking\<close> it unregisters listener 1; in \<open>releasing\<close> it makes the owner
  of listener 1 let go of it.
\<close>

definition silent :: "nat \<Rightarrow> event \<Rightarrow> action list" where
  "silent n e = []"

definition spawner :: "nat \<Rightarrow> event \<Rightarrow> action list" where
  "spawner n e = [Register 2]"

definition remover :: "nat \<Rightarrow> event \<Rightarrow> action list" where
  "remover n e = [Unregister 1]"

definition three :: "(nat \<Rightarrow> event \<Rightarrow> action list) \<Rightarrow> world" where
  "three f = RegisterListener 1 (RegisterListener 0
     ((fresh [])\<lparr>heap := (\<lambda>l. None)(0 \<mapsto> Script 0 f, 1 \<mapsto> Script 0 silent, 2 \<mapsto> Script 0 silent)\<rparr>))"

definition growing :: world where
  "growing = three spawner"

definition shrinking :: world where
  "shrinking = three remover"

definition releaser :: "nat \<Rightarrow> event \<Rightarrow> action list" where
  "releaser n e = [Release 1]"

definition releasing :: world where
  "releasing = three releaser"

text \<open>The world of \<open>demo\<close> once \<^verbatim>\<open>pygame.quit()\<close> has run.\<close>

definition closed :: world where
  "closed = demo\<lparr>pygame_up := False\<rparr>"

declare Post.simps [simp del] for_keys.simps [simp del] Notify.simps [simp del]
declare event_get.simps [simp del]
declare run_loop.simps [code]

section \<open>Facts about the dictionary\<close>

lemma entry_keys_setitem:
  "entry_keys (setitem es k v) = (if k \<in> set (entry_keys es) then entry_keys es else entry_keys es @ [k])"
  by (induction es k v rule: setitem.induct) auto

lemma entry_keys_delitem: "entry_keys (delitem es k) = remove1 k (entry_keys es)"
  by (induction es k rule: delitem.induct) auto

lemma delitem_absent: "k \<notin> set (entry_keys es) \<Longrightarrow> delitem es k = es"
  by (induction es k rule: delitem.induct) auto

lemma setitem_setitem: "setitem (setitem es k v) k v = setitem es k v"
  by (induction es k v rule: setitem.induct) auto

lemma first_entry_None: "first_entry es i = None \<Longrightarrow> entry_keys es = []"
  by (induction es i rule: first_entry.induct) auto

lemma first_entry_Some:
  "first_entry es i = Some (j, k) \<Longrightarrow>
     i \<le> j \<and> j < i + length es \<and> entry_keys es = k # entry_keys (drop (Suc (j - i)) es)"
proof (induction es i rule: first_entry.induct)
  case (2 es i)
  then have "Suc i \<le> j" by simp
  then have "Suc (j - i) = Suc (Suc (j - Suc i))" by simp
  with 2 show ?case by auto
qed auto

lemma next_entry_None: "next_entry es pos = None \<Longrightarrow> entry_keys (drop pos es) = []"
  unfolding next_entry_def by (rule first_entry_None)

lemma next_entry_Some:
  assumes "next_entry es pos = Some (j, k)"
  shows "entry_keys (drop pos es) = k # entry_keys (drop (Suc j) es)"
proof -
  from first_entry_Some[OF assms[unfolded next_entry_def]]
  have a: "pos \<le> j" and b: "entry_keys (drop pos es) = k # entry_keys (drop (Suc (j - pos)) (drop pos es))"
    by auto
  from a have "Suc (j - pos) + pos = Suc j" by simp
  with b show ?thesis by (simp add: add.commute)
qed

section \<open>Facts about traces\<close>

lemma direct_append [simp]: "direct d (xs @ ys) = direct d xs @ direct d ys"
  by (induction d xs rule: direct.induct) auto

lemma seen_append [simp]: "seen l (xs @ ys) = seen l xs @ seen l ys"
  by (induction l xs rule: seen.induct) auto

lemma toplevel_append [simp]: "toplevel d (xs @ ys) = toplevel d xs @ toplevel d ys"
  by (induction d xs rule: toplevel.induct) auto

lemma calm_append [simp]: "calm (xs @ ys) = (calm xs \<and> calm ys)"
  by (induction xs) auto

lemma calm_iff: "calm xs = (\<forall>x\<in>set xs. \<not> mutation x)"
  by (induction xs) auto

lemma nested_direct: "\<forall>x\<in>set xs. nested d x \<Longrightarrow> direct d xs = []"
  by (induction d xs rule: direct.induct) auto

lemma nested_toplevel: "\<forall>x\<in>set xs. nested d x \<Longrightarrow> toplevel d xs = []"
  by (induction d xs rule: toplevel.induct) auto

lemma nested_Suc: "nested d x \<Longrightarrow> nested (Suc d) x"
  by (cases x) auto

section \<open>How worlds evolve\<close>

lemma obj_le_refl [simp]: "obj_le x x"
proof (cases x)
  case None then show ?thesis by simp
next
  case (Some a) then show ?thesis by (cases a) auto
qed

lemma obj_le_trans: "obj_le x y \<Longrightarrow> obj_le y z \<Longrightarrow> obj_le x z"
proof (cases x)
  case None
  assume "obj_le x y" "obj_le y z" with None show ?thesis by simp
next
  case (Some a)
  assume "obj_le x y" "obj_le y z" with Some show ?thesis
    by (cases a) (auto split: option.splits listener.splits)
qed

lemma obj_le_dies: "obj_le (Some (Script n f)) None"
  by simp

lemma evolves_refl [simp]: "evolves w w"
  by (simp add: evolves_def)

lemma evolves_trans: "evolves w w' \<Longrightarrow> evolves w' w'' \<Longrightarrow> evolves w w''"
  unfolding evolves_def by (auto intro: obj_le_trans)

lemma logged_frame [simp]:
  "heap (logged x w) = heap w" "data (logged x w) = data w" "queue (logged x w) = queue w"
  "log (logged x w) = log w @ [x]" "pins (logged x w) = pins w"
  "orphans (logged x w) = orphans w" "pygame_up (logged x w) = pygame_up w"
  by (simp_all add: logged_def)

lemma pin_frame [simp]:
  "heap (pin l w) = heap w" "data (pin l w) = data w" "queue (pin l w) = queue w"
  "log (pin l w) = log w" "pins (pin l w) = l # pins w" "pygame_up (pin l w) = pygame_up w"
  by (simp_all add: pin_def)

lemma unpin_frame [simp]:
  "data (unpin l w) = data w" "queue (unpin l w) = queue w"
  "log (unpin l w) = log w" "pins (unpin l w) = remove1 l (pins w)"
  "pygame_up (unpin l w) = pygame_up w"
  by (simp_all add: unpin_def split: option.splits listener.splits)

lemma commit_frame [simp]:
  "heap (commit_removals w) = heap w" "queue (commit_removals w) = queue w"
  "log (commit_removals w) = log w" "pins (commit_removals w) = pins w"
  "orphans (commit_removals w) = orphans w" "pygame_up (commit_removals w) = pygame_up w"
  by (simp_all add: commit_removals_def)

lemma let_go_frame [simp]:
  "queue (let_go l w) = queue w" "log (let_go l w) = log w" "pins (let_go l w) = pins w"
  "pygame_up (let_go l w) = pygame_up w"
  by (simp_all add: let_go_def reclaim_def split: option.splits listener.splits)

lemma Register_frame [simp]:
  "heap (RegisterListener l w) = heap w" "queue (RegisterListener l w) = queue w"
  "log (RegisterListener l w) = log w" "pins (RegisterListener l w) = pins w"
  "orphans (RegisterListener l w) = orphans w" "pygame_up (RegisterListener l w) = pygame_up w"
  by (simp_all add: RegisterListener_def)

lemma Unregister_frame [simp]:
  "heap (UnregisterListener l w) = heap w" "queue (UnregisterListener l w) = queue w"
  "log (UnregisterListener l w) = log w" "pins (UnregisterListener l w) = pins w"
  "orphans (UnregisterListener l w) = orphans w"
  "pygame_up (UnregisterListener l w) = pygame_up w"
  by (simp_all add: UnregisterListener_def)

lemma commit_pinned: "pins w \<noteq> [] \<Longrightarrow> commit_removals w = w"
  by (simp add: commit_removals_def)

lemma entry_keys_commit:
  "entry_keys (map (\<lambda>en. case en of None \<Rightarrow> None
       | Some (k, v) \<Rightarrow> if h k = None then None else Some (k, v)) es) =
   filter (\<lambda>k. h k \<noteq> None) (entry_keys es)"
  by (induction es rule: entry_keys.induct) auto

lemma keys_commit [simp]: "keys (commit_removals w) = keys w"
  by (simp add: keys_def commit_removals_def entry_keys_commit)

lemma entry_keys_commit_removals:
  "entry_keys (data (commit_removals w)) =
     (if pins w = [] then keys w else entry_keys (data w))"
  by (simp add: keys_def commit_removals_def entry_keys_commit)

lemma evolves_logged [simp]: "evolves w (logged x w)"
  by (simp add: evolves_def)

lemma evolves_Register [simp]: "evolves w (RegisterListener l w)"
  by (simp add: evolves_def)

lemma evolves_Unregister [simp]: "evolves w (UnregisterListener l w)"
  by (simp add: evolves_def)

lemma evolves_pin [simp]: "evolves w (pin l w)"
  by (simp add: evolves_def)

lemma evolves_unpin [simp]: "evolves w (unpin l w)"
  by (auto simp: evolves_def unpin_def split: option.splits listener.splits)

lemma evolves_commit [simp]: "evolves w (commit_removals w)"
  by (simp add: evolves_def)

lemma evolves_let_go [simp]: "evolves w (let_go l w)"
  by (auto simp: evolves_def let_go_def reclaim_def split: option.splits listener.splits)

lemma since_self [simp]: "since w w = []"
  by (simp add: since_def)

lemma since_same_log: "log w' = log w \<Longrightarrow> since w w' = []"
  by (simp add: since_def)

lemma since_logged [simp]: "since w (logged x w) = [x]"
  by (simp add: since_def)

lemma since_trans: "evolves w w1 \<Longrightarrow> evolves w1 w2 \<Longrightarrow> since w w2 = since w w1 @ since w1 w2"
  by (auto simp: evolves_def since_def)

lemma since_log: "evolves w w' \<Longrightarrow> log w' = log w @ since w w'"
  by (auto simp: evolves_def since_def)

lemma since_eq_log: "log w1 = log w \<Longrightarrow> since w1 w' = since w w'"
  by (simp add: since_def)

lemma since_to_log: "log w1 = log w' \<Longrightarrow> since w w1 = since w w'"
  by (simp add: since_def)

lemma since_pin [simp]: "since (pin l w) w' = since w w'"
  by (simp add: since_def)

lemma since_unpin [simp]: "since w (unpin l w') = since w w'" "since (unpin l w) w' = since w w'"
  by (simp_all add: since_def)

lemma since_commit [simp]: "since w (commit_removals w') = since w w'"
  by (simp add: since_def)

lemma world_of_leave: "world_of (leave r) = (if returned r then commit_removals (world_of r) else world_of r)"
  by (cases r) auto

lemma raised_leave [simp]: "raised (leave r) = raised r"
  by (cases r) auto

lemma returned_leave [simp]: "returned (leave r) = returned r"
  by (cases r) auto

lemma since_leave [simp]: "since w (world_of (leave r)) = since w (world_of r)"
  by (cases r) auto

lemma evolves_leave: "evolves w (world_of r) \<Longrightarrow> evolves w (world_of (leave r))"
  by (cases r) (auto intro: evolves_trans[OF _ evolves_commit])

lemma heap_leave [simp]: "heap (world_of (leave r)) = heap (world_of r)"
  by (cases r) auto

lemma keys_leave [simp]: "keys (world_of (leave r)) = keys (world_of r)"
  by (cases r) auto

section \<open>Unfolding the loop and the handlers\<close>

lemma for_keys_cases [case_names size finished extra dead live_ok live_raised]:
  obtains
    "used (data w) \<noteq> di_used it" "for_keys d e it w = Raised RuntimeError (commit_removals w)"
  | "used (data w) = di_used it" "next_entry (data w) (di_pos it) = None"
      "for_keys d e it w = Ok w"
  | i l where "used (data w) = di_used it" "next_entry (data w) (di_pos it) = Some (i, l)"
      "len it = 0" "for_keys d e it w = Raised RuntimeError (commit_removals w)"
  | i l n where "used (data w) = di_used it" "next_entry (data w) (di_pos it) = Some (i, l)"
      "len it = Suc n" "heap w l = None"
      "for_keys d e it w = for_keys d e \<lparr>di_used = di_used it, di_pos = Suc i, len = n\<rparr> w"
  | i l n obj w1 where "used (data w) = di_used it"
      "next_entry (data w) (di_pos it) = Some (i, l)"
      "len it = Suc n" "heap w l = Some obj"
      "Notify d l e (pin l w) = Ok w1"
      "for_keys d e it w =
         for_keys d e \<lparr>di_used = di_used it, di_pos = Suc i, len = n\<rparr> (unpin l w1)"
  | i l n obj x w1 where "used (data w) = di_used it"
      "next_entry (data w) (di_pos it) = Some (i, l)"
      "len it = Suc n" "heap w l = Some obj"
      "Notify d l e (pin l w) = Raised x w1"
      "for_keys d e it w = Raised x w1"
proof (cases "used (data w) = di_used it")
  case False
  then show ?thesis using that(1) by (simp add: for_keys.simps)
next
  case u: True
  show ?thesis
  proof (cases "next_entry (data w) (di_pos it)")
    case None
    then show ?thesis using u that(2) by (simp add: for_keys.simps)
  next
    case (Some p)
    obtain i l where p: "p = (i, l)" by (cases p)
    show ?thesis
    proof (cases "len it")
      case 0
      then show ?thesis using u Some p that(3) by (simp add: for_keys.simps)
    next
      case (Suc n)
      show ?thesis
      proof (cases "heap w l")
        case None
        then show ?thesis using u Some p Suc that(4) by (simp add: for_keys.simps)
      next
        case h: (Some obj)
        show ?thesis
        proof (cases "Notify d l e (pin l w)")
          case (Ok w1)
          then show ?thesis using u Some p Suc h that(5) by (simp add: for_keys.simps)
        next
          case (Raised x w1)
          then show ?thesis using u Some p Suc h that(6) by (simp add: for_keys.simps)
        qed
      qed
    qed
  qed
qed

lemma keys_logged [simp]: "keys (logged x w) = keys w"
  by (simp add: keys_def)

lemma keys_pin [simp]: "keys (pin l w) = keys w"
  by (simp add: keys_def)

lemma Notify_dead: "heap w self = None \<Longrightarrow> Notify d self e w = Ok w"
  by (simp add: Notify.simps)

lemma Notify_view:
  "heap w self = Some PygameView \<Longrightarrow>
   Notify d self e w =
     (if e = DrawEvent
      then (if pygame_up w then Ok (logged DrawBackground (logged (Notified d self e) w))
            else Raised PygameError (logged (Notified d self e) w))
      else if e = QuitCleanupEvent
      then Ok (logged PygameQuit ((logged (Notified d self e) w)\<lparr>pygame_up := False\<rparr>))
      else Ok (logged (Notified d self e) w))"
  by (simp add: Notify.simps)

lemma Notify_controller:
  "heap w self = Some PygameController \<Longrightarrow>
   Notify d self e w =
     (if e = UpdateEvent
      then (if pygame_up w
            then perform d (controller_posts (fst (event_get (logged (Notified d self e) w))))
                   (snd (event_get (logged (Notified d self e) w)))
            else Raised PygameError (logged (Notified d self e) w))
      else Ok (logged (Notified d self e) w))"
  by (simp add: Notify.simps split: prod.splits)

lemma event_get_frame [simp]:
  "heap (snd (event_get w)) = heap w" "data (snd (event_get w)) = data w"
  "log (snd (event_get w)) = log w" "pins (snd (event_get w)) = pins w"
  "orphans (snd (event_get w)) = orphans w" "pygame_up (snd (event_get w)) = pygame_up w"
  by (auto simp: event_get.simps split: list.splits)

lemma Notify_tick:
  "heap w self = Some (TickController r) \<Longrightarrow>
   Notify d self e w =
     Ok (if e = QuitEvent
         then (logged (Notified d self e) w)\<lparr>heap := (heap w)(self \<mapsto> TickController False)\<rparr>
         else logged (Notified d self e) w)"
  by (simp add: Notify.simps)

lemma Notify_script:
  "heap w self = Some (Script n f) \<Longrightarrow>
   Notify d self e w =
     perform d (f n e)
       ((logged (Notified d self e) w)\<lparr>heap := (heap w)(self \<mapsto> Script (Suc n) f)\<rparr>)"
  by (simp add: Notify.simps)

lemma evolves_event_get [simp]: "evolves w (snd (event_get w))"
  by (simp add: evolves_def)

lemma since_event_get [simp]: "since w (snd (event_get w)) = []"
  by (simp add: since_def)

lemma evolves_polled [simp]: "evolves w (snd (event_get (logged x w)))"
  by (simp add: evolves_def)

lemma since_polled [simp]: "since w (snd (event_get (logged x w))) = [x]"
  by (simp add: since_def)

lemma evolves_counted:
  "heap w l = Some (Script n f) \<Longrightarrow>
   evolves w ((logged x w)\<lparr>heap := (heap w)(l \<mapsto> Script (Suc n) f)\<rparr>)"
  by (simp add: evolves_def)

lemma since_counted [simp]: "since w ((logged x w)\<lparr>heap := h\<rparr>) = [x]"
  by (simp add: since_def)

lemma evolves_all:
  "evolves w (world_of (Post d e w))"
  "evolves w (world_of (for_keys d e it w))"
  "evolves w (world_of (Notify d l e w))"
  "evolves w (world_of (perform d as w))"
proof (induct d e w and d e it w and d l e w and d as w rule: Post_for_keys_Notify_perform.induct)
  case (1 d event w)
  have "evolves w (world_of (for_keys d event (dictiter_new (data w)) (logged (Posted d event) w)))"
    using 1 by (rule evolves_trans[OF evolves_logged])
  then show ?case unfolding Post.simps by (rule evolves_leave)
next
  case (2 d event it w)
  show ?case
  proof (cases rule: for_keys_cases[of w it d event])
    case (dead i l n)
    then show ?thesis using 2(1)[OF _ dead(2) refl dead(3,4)] by simp
  next
    case (live_ok i l n obj w1)
    have "evolves (pin l w) w1"
      using 2(2)[OF _ live_ok(2) refl live_ok(3,4)] live_ok(1,5) by simp
    then have "evolves w (unpin l w1)"
      by (blast intro: evolves_trans evolves_pin evolves_unpin)
    then show ?thesis using 2(3)[OF _ live_ok(2) refl live_ok(3,4,5)] live_ok(1,6)
      by (auto intro: evolves_trans)
  next
    case (live_raised i l n obj x w1)
    then show ?thesis using 2(2)[OF _ live_raised(2) refl live_raised(3,4)]
      by (auto intro: evolves_trans[OF evolves_pin])
  qed auto
next
  case (3 d self event w)
  show ?case
  proof (cases "heap w self")
    case None
    then show ?thesis by (simp add: Notify_dead)
  next
    case (Some obj)
    show ?thesis
    proof (cases obj)
      case PygameView
      then show ?thesis using Some by (simp add: Notify_view evolves_def)
    next
      case PygameController
      show ?thesis
      proof (cases "event = UpdateEvent \<and> pygame_up w")
        case True
        then show ?thesis
          using 3(1)[OF Some PygameController _ _ prod.collapse] Some PygameController
          by (auto simp: Notify_controller intro: evolves_trans[OF evolves_polled])
      next
        case False
        then show ?thesis using Some PygameController
          by (auto simp: Notify_controller)
      qed
    next
      case (TickController r)
      then show ?thesis using Some by (auto simp: Notify_tick evolves_def)
    next
      case (Script n f)
      then show ?thesis using 3(2)[OF Some Script] Some Script
        by (auto simp: Notify_script intro: evolves_trans[OF evolves_counted])
    qed
  qed
next
  case (4 d w)
  then show ?case by simp
next
  case (5 d l as w)
  then show ?case
    by (auto intro: evolves_trans[OF evolves_logged] evolves_trans[OF evolves_Register])
next
  case (6 d l as w)
  then show ?case
    by (auto intro: evolves_trans[OF evolves_logged] evolves_trans[OF evolves_Unregister])
next
  case (7 d l as w)
  then show ?case
    by (auto intro: evolves_trans[OF evolves_logged] evolves_trans[OF evolves_let_go])
next
  case (8 d e as w)
  then show ?case
    by (auto split: nat.splits outcome.splits intro: evolves_trans)
qed

lemma evolves_Post: "Post d e w = r \<Longrightarrow> evolves w (world_of r)"
  using evolves_all(1) by blast

lemma since_heap_upd [simp]: "since w (w\<lparr>heap := h\<rparr>) = []"
  by (simp add: since_def)

lemma since_Register [simp]: "since w (RegisterListener l w) = []"
  by (simp add: since_def)

lemma since_Unregister [simp]: "since w (UnregisterListener l w) = []"
  by (simp add: since_def)

lemma since_let_go [simp]: "since w (let_go l w) = []"
  by (simp add: since_def)

lemma evolves_heap_upd: "obj_le (heap w l) (Some x) \<Longrightarrow> evolves w (w\<lparr>heap := (heap w)(l \<mapsto> x)\<rparr>)"
  by (simp add: evolves_def)

text \<open>splitting the trace of a call made after a first step\<close>

lemma since_step:
  "evolves w w1 \<Longrightarrow> since w (world_of (Post d e w1)) = since w w1 @ since w1 (world_of (Post d e w1))"
  "evolves w w1 \<Longrightarrow> since w (world_of (for_keys d e it w1)) = since w w1 @ since w1 (world_of (for_keys d e it w1))"
  "evolves w w1 \<Longrightarrow> since w (world_of (Notify d l e w1)) = since w w1 @ since w1 (world_of (Notify d l e w1))"
  "evolves w w1 \<Longrightarrow> since w (world_of (perform d as w1)) = since w w1 @ since w1 (world_of (perform d as w1))"
  by (rule since_trans, assumption, rule evolves_all)+

text \<open>the trace of one pass of the loop over a live listener\<close>

lemma since_pass:
  assumes "Notify d l e (pin l w) = Ok w1"
  shows "evolves w w1" "evolves w (unpin l w1)"
    "since w (world_of (for_keys d e it (unpin l w1))) =
       since w w1 @ since w1 (world_of (for_keys d e it (unpin l w1)))"
proof -
  have "evolves (pin l w) w1" using evolves_all(3)[of "pin l w" d l e] assms by simp
  then show a: "evolves w w1" by (rule evolves_trans[OF evolves_pin])
  then show b: "evolves w (unpin l w1)" by (rule evolves_trans[OF _ evolves_unpin])
  have "evolves w1 (world_of (for_keys d e it (unpin l w1)))"
    by (rule evolves_trans[OF evolves_unpin evolves_all(2)])
  from since_trans[OF a this] show "since w (world_of (for_keys d e it (unpin l w1))) =
       since w w1 @ since w1 (world_of (for_keys d e it (unpin l w1)))" .
qed

lemma leave_Ok: "leave r = Ok w' \<longleftrightarrow> (\<exists>w1. r = Ok w1 \<and> w' = commit_removals w1)"
  by (cases r) auto

text \<open>A call that returns leaves the loops' variables as they were.\<close>

lemma pins_all:
  "Post d e w = Ok w' \<Longrightarrow> pins w' = pins w"
  "for_keys d e it w = Ok w' \<Longrightarrow> pins w' = pins w"
  "Notify d l e w = Ok w' \<Longrightarrow> pins w' = pins w"
  "perform d as w = Ok w' \<Longrightarrow> pins w' = pins w"
proof (induct d e w and d e it w and d l e w and d as w arbitrary: w' and w' and w' and w'
    rule: Post_for_keys_Notify_perform.induct)
  case (1 d event w)
  from 1(2) obtain w1 where
    r: "for_keys d event (dictiter_new (data w)) (logged (Posted d event) w) = Ok w1"
    and w': "w' = commit_removals w1"
    unfolding Post.simps by (auto simp: leave_Ok)
  show ?case using 1(1)[OF r] w' by simp
next
  case (2 d event it w)
  note res = 2(4)
  show ?case
  proof (cases rule: for_keys_cases[of w it d event])
    case (dead i l n)
    then show ?thesis using 2(1)[OF _ dead(2) refl dead(3,4)] res by simp
  next
    case (live_ok i l n obj w1)
    have "pins w1 = l # pins w"
      using 2(2)[OF _ live_ok(2) refl live_ok(3,4,5)] live_ok(1) by simp
    then show ?thesis using 2(3)[OF _ live_ok(2) refl live_ok(3,4,5)] live_ok(1,6) res
      by simp
  qed (use res in auto)
next
  case (3 d self event w)
  note res = 3(3)
  show ?case
  proof (cases "heap w self")
    case None
    then show ?thesis using res by (simp add: Notify_dead)
  next
    case (Some obj)
    show ?thesis
    proof (cases obj)
      case PygameView
      then show ?thesis using Some res by (auto simp: Notify_view split: if_splits)
    next
      case PygameController
      show ?thesis
      proof (cases "event = UpdateEvent \<and> pygame_up w")
        case True
        then show ?thesis
          using 3(1)[OF Some PygameController _ _ prod.collapse] Some PygameController res
          by (auto simp: Notify_controller)
      next
        case False
        then show ?thesis using Some PygameController res
          by (auto simp: Notify_controller split: if_splits)
      qed
    next
      case (TickController r)
      then show ?thesis using Some res by (auto simp: Notify_tick)
    next
      case (Script n f)
      then show ?thesis using 3(2)[OF Some Script] Some Script res
        by (auto simp: Notify_script)
    qed
  qed
next
  case (4 d w)
  then show ?case by simp
next
  case (5 d l as w)
  then show ?case by auto
next
  case (6 d l as w)
  then show ?case by auto
next
  case (7 d l as w)
  then show ?case by auto
next
  case (8 d e as w)
  note res = 8(3)
  show ?case
  proof (cases d)
    case 0
    then show ?thesis using res by simp
  next
    case (Suc d')
    show ?thesis
    proof (cases "Post d' e w")
      case (Ok w1)
      have "pins w1 = pins w" using 8(1)[OF Suc Ok] .
      moreover have "pins w' = pins w1" using 8(2)[OF Suc Ok] res Suc Ok by simp
      ultimately show ?thesis by simp
    next
      case (Raised x w1)
      then show ?thesis using res Suc by simp
    qed
  qed
qed

text \<open>
  The shape of the trace: a call of \<^verbatim>\<open>Notify\<close> on a live listener begins with its own
  record, and everything else a handler leaves comes from deeper broadcasts.
\<close>

lemma depth_all:
  "\<exists>xs. since w (world_of (Post d e w)) = Posted d e # xs \<and>
        (\<forall>x\<in>set xs. nested d x \<or> (\<exists>l. x = Notified d l e))"
  "\<forall>x\<in>set (since w (world_of (for_keys d e it w))). nested d x \<or> (\<exists>l. x = Notified d l e)"
  "\<exists>xs. since w (world_of (Notify d l e w)) =
          (if heap w l = None then [] else Notified d l e # xs) \<and> (\<forall>x\<in>set xs. nested d x)"
  "\<forall>x\<in>set (since w (world_of (perform d as w))). nested d x"
proof (induct d e w and d e it w and d l e w and d as w rule: Post_for_keys_Notify_perform.induct)
  case (1 d event w)
  have "since w (world_of (Post d event w)) =
      [Posted d event] @ since (logged (Posted d event) w) (world_of (Post d event w))"
    unfolding Post.simps using since_step(2)[OF evolves_logged] by simp
  then show ?case using 1 by (simp add: Post.simps)
next
  case (2 d event it w)
  show ?case
  proof (cases rule: for_keys_cases[of w it d event])
    case (dead i l n)
    then show ?thesis using 2(1)[OF _ dead(2) refl dead(3,4)] by simp
  next
    case (live_ok i l n obj w1)
    have a: "\<forall>x\<in>set (since w w1). nested d x \<or> x = Notified d l event"
      using 2(2)[OF _ live_ok(2) refl live_ok(3,4)] live_ok(1,4,5) by auto
    have b: "\<forall>x\<in>set (since w1 (world_of (for_keys d event it w))). nested d x \<or> (\<exists>l. x = Notified d l event)"
      using 2(3)[OF _ live_ok(2) refl live_ok(3,4,5)] live_ok(1,6) by simp
    show ?thesis using a b since_pass(3)[OF live_ok(5)] unfolding live_ok(6) by auto
  next
    case (live_raised i l n obj x w1)
    have a: "\<forall>x\<in>set (since w w1). nested d x \<or> x = Notified d l event"
      using 2(2)[OF _ live_raised(2) refl live_raised(3,4)] live_raised(1,4,5) by auto
    then show ?thesis using live_raised(6) by auto
  qed auto
next
  case (3 d self event w)
  show ?case
  proof (cases "heap w self")
    case None
    then show ?thesis by (simp add: Notify_dead exI[of _ "[]"])
  next
    case (Some obj)
    show ?thesis
    proof (cases obj)
      case PygameView
      then show ?thesis using Some by (simp add: Notify_view since_def)
    next
      case PygameController
      show ?thesis
      proof (cases "event = UpdateEvent \<and> pygame_up w")
        case True
        let ?w1 = "snd (event_get (logged (Notified d self event) w))"
        have "since w (world_of (perform d (controller_posts (fst (event_get (logged (Notified d self event) w)))) ?w1))
          = [Notified d self event] @ since ?w1 (world_of (perform d (controller_posts (fst (event_get (logged (Notified d self event) w)))) ?w1))"
          using since_step(4)[OF evolves_polled[of w "Notified d self event"], of d] by simp
        then show ?thesis
          using 3(1)[OF Some PygameController _ _ prod.collapse] Some PygameController True
          by (simp add: Notify_controller)
      next
        case False
        then show ?thesis using Some PygameController
          by (auto simp: Notify_controller)
      qed
    next
      case (TickController r)
      then show ?thesis using Some by (auto simp: Notify_tick since_def)
    next
      case (Script n f)
      let ?w1 = "(logged (Notified d self event) w)\<lparr>heap := (heap w)(self \<mapsto> Script (Suc n) f)\<rparr>"
      have "evolves w ?w1" using Some Script by (simp add: evolves_counted)
      from since_step(4)[OF this, of d] show ?thesis using 3(2)[OF Some Script] Some Script
        by (simp add: Notify_script)
    qed
  qed
next
  case (4 d w)
  then show ?case by simp
next
  case (5 d l as w)
  have "evolves w (RegisterListener l (logged (Registered l) w))"
    by (simp add: evolves_def)
  from since_step(4)[OF this, of d as] show ?case using 5 by (simp add: since_def)
next
  case (6 d l as w)
  have "evolves w (UnregisterListener l (logged (Unregistered l) w))"
    by (simp add: evolves_def)
  from since_step(4)[OF this, of d as] show ?case using 6 by (simp add: since_def)
next
  case (7 d l as w)
  have "evolves w (let_go l (logged (Released l) w))"
    by (rule evolves_trans[OF evolves_logged evolves_let_go])
  from since_step(4)[OF this, of d as] show ?case using 7 by (simp add: since_def)
next
  case (8 d e as w)
  show ?case
  proof (cases d)
    case 0
    then show ?thesis by simp
  next
    case (Suc d')
    obtain xs where xs: "since w (world_of (Post d' e w)) = Posted d' e # xs"
      "\<forall>x\<in>set xs. nested d' x \<or> (\<exists>l. x = Notified d' l e)"
      using 8(1)[OF Suc] by blast
    then have n1: "\<forall>x\<in>set (since w (world_of (Post d' e w))). nested d x"
      using Suc by (auto dest: nested_Suc)
    show ?thesis
    proof (cases "Post d' e w")
      case (Ok w1)
      have "evolves w w1" using evolves_all(1)[of w d' e] Ok by simp
      from since_step(4)[OF this, of d as] show ?thesis
        using 8(2)[OF Suc Ok] n1 Ok Suc by auto
    next
      case (Raised x w1)
      then show ?thesis using n1 Suc by simp
    qed
  qed
qed

lemma Notify_trace:
  assumes "heap w l \<noteq> None"
  shows "\<exists>xs. since w (world_of (Notify d l e w)) = Notified d l e # xs \<and> (\<forall>x\<in>set xs. nested d x)"
  using depth_all(3)[of w d l e] assms by simp

lemma evolves_posts_only: "evolves w w' \<Longrightarrow> posts_only S w \<Longrightarrow> posts_only S w'"
  unfolding posts_only_def
proof (intro allI impI)
  fix l c f n e a
  assume ev: "evolves w w'" and po: "\<forall>l c f n e a. heap w l = Some (Script c f) \<longrightarrow> a \<in> set (f n e) \<longrightarrow> (\<exists>e'\<in>S. a = PostAct e')"
    and h: "heap w' l = Some (Script c f)" and a: "a \<in> set (f n e)"
  from ev have o: "obj_le (heap w l) (heap w' l)" by (simp add: evolves_def)
  have "\<exists>c'. heap w l = Some (Script c' f)"
  proof (cases "heap w l")
    case None
    then show ?thesis using o h by simp
  next
    case (Some x)
    then show ?thesis using o h by (cases x) auto
  qed
  then show "\<exists>e'\<in>S. a = PostAct e'" using po a by blast
qed

lemma entry_keys_drop: "set (entry_keys (drop n es)) \<subseteq> set (entry_keys es)"
proof (induction es arbitrary: n rule: entry_keys.induct)
  case 1
  then show ?case by simp
next
  case (2 es)
  then show ?case by (cases n) auto
next
  case (3 k v es)
  then show ?case by (cases n) auto
qed

lemma controller_posts_only: "QuitEvent \<in> S \<Longrightarrow> \<forall>a\<in>set (controller_posts es). \<exists>e'\<in>S. a = PostAct e'"
  by (induction es rule: controller_posts.induct) auto

lemma consistent_new: "consistent (dictiter_new (data w)) (logged x w)"
  by (simp add: consistent_def dictiter_new_def used_def)

lemma consistent_step:
  assumes "consistent it w" "next_entry (data w) (di_pos it) = Some (i, l)" "data w1 = data w"
  shows "len it = Suc (length (entry_keys (drop (Suc i) (data w))))"
    "consistent \<lparr>di_used = di_used it, di_pos = Suc i, len = length (entry_keys (drop (Suc i) (data w)))\<rparr> w1"
    "l \<in> set (entry_keys (data w))"
  using assms next_entry_Some[OF assms(2)] entry_keys_drop[of "di_pos it" "data w"]
  by (auto simp: consistent_def)

lemma consistent_next:
  assumes "consistent it w" "next_entry (data w) (di_pos it) = Some (i, l)" "data w1 = data w"
    "len it = Suc n"
  shows "consistent \<lparr>di_used = di_used it, di_pos = Suc i, len = n\<rparr> w1"
  using consistent_step(1,2)[OF assms(1,2,3)] assms(4) by simp

lemma Notified_keys: "heap w l = Some obj \<Longrightarrow> l \<in> set (entry_keys (data w)) \<Longrightarrow> l \<in> set (keys w)"
  by (simp add: keys_def)

section \<open>Broadcasts during which no handler touches the registry\<close>

lemma same_registry_refl [simp]: "same_registry w w"
  by (simp add: same_registry_def)

lemma same_registry_trans:
  "same_registry w w1 \<Longrightarrow> same_registry w1 w2 \<Longrightarrow> (pins w \<noteq> [] \<Longrightarrow> pins w1 \<noteq> []) \<Longrightarrow>
   same_registry w w2"
  unfolding same_registry_def by auto

lemma same_registry_logged [simp]: "same_registry w (logged x w)"
  by (simp add: same_registry_def)

lemma same_registry_live: "same_registry w w' \<Longrightarrow> (heap w' k = None) = (heap w k = None)"
  by (simp add: same_registry_def)

lemma same_registry_keys: "same_registry w w' \<Longrightarrow> keys w' = keys w"
  by (simp add: same_registry_def)

lemma keys_live_upd:
  "heap w l \<noteq> None \<Longrightarrow> keys (w\<lparr>heap := (heap w)(l \<mapsto> x)\<rparr>) = keys w"
  "heap w l \<noteq> None \<Longrightarrow> keys ((logged y w)\<lparr>heap := (heap w)(l \<mapsto> x)\<rparr>) = keys w"
  by (auto simp: keys_def intro: filter_cong)

lemma same_registry_counted:
  "heap w l \<noteq> None \<Longrightarrow> same_registry w ((logged y w)\<lparr>heap := (heap w)(l \<mapsto> x)\<rparr>)"
  by (auto simp: same_registry_def keys_live_upd)

lemma same_registry_polled [simp]: "same_registry w (snd (event_get (logged x w)))"
  by (simp add: same_registry_def keys_def)

text \<open>
  The loop lets go of a listener that it took from a world of the same registry: the
  listener lives on.
\<close>

lemma unpin_kept:
  assumes "set (orphans w1) \<subseteq> set (orphans (pin l w))" "pins w1 = l # pins w"
  shows "unpin l w1 = w1\<lparr>pins := pins w\<rparr>"
proof -
  have "\<not> (l \<in> set (orphans w1) \<and> l \<notin> set (pins w))"
    using assms(1) by (auto simp: pin_def split: if_splits)
  then show ?thesis using assms(2)
    by (auto simp: unpin_def split: option.splits listener.splits)
qed

lemma same_registry_pass:
  assumes "same_registry (pin l w) w1" "pins w1 = l # pins w"
  shows "same_registry w (unpin l w1)" "data (unpin l w1) = data w"
    "heap (unpin l w1) = heap w1"
proof -
  have u: "unpin l w1 = w1\<lparr>pins := pins w\<rparr>"
    using assms by (intro unpin_kept) (simp_all add: same_registry_def)
  have o: "set (orphans (pin l w)) \<subseteq> set (orphans w)" by (auto simp: pin_def)
  show "same_registry w (unpin l w1)"
    using assms(1) o unfolding u same_registry_def by (auto simp: keys_def)
  show "data (unpin l w1) = data w" using assms(1) by (simp add: same_registry_def)
  show "heap (unpin l w1) = heap w1" unfolding u by simp
qed

lemma calm_all:
  "calm (since w (world_of (Post d e w))) \<Longrightarrow>
     same_registry w (world_of (Post d e w)) \<and> raised (Post d e w) \<noteq> Some RuntimeError"
  "calm (since w (world_of (for_keys d e it w))) \<Longrightarrow> consistent it w \<Longrightarrow>
     same_registry w (world_of (for_keys d e it w)) \<and>
     data (world_of (for_keys d e it w)) = data w \<and>
     raised (for_keys d e it w) \<noteq> Some RuntimeError"
  "calm (since w (world_of (Notify d l e w))) \<Longrightarrow>
     same_registry w (world_of (Notify d l e w)) \<and> raised (Notify d l e w) \<noteq> Some RuntimeError"
  "calm (since w (world_of (perform d as w))) \<Longrightarrow>
     same_registry w (world_of (perform d as w)) \<and> raised (perform d as w) \<noteq> Some RuntimeError"
proof (induct d e w and d e it w and d l e w and d as w rule: Post_for_keys_Notify_perform.induct)
  case (1 d event w)
  let ?w0 = "logged (Posted d event) w"
  let ?r = "for_keys d event (dictiter_new (data w)) ?w0"
  have "since w (world_of ?r) = [Posted d event] @ since ?w0 (world_of ?r)"
    using since_step(2)[OF evolves_logged] by simp
  then have c: "calm (since ?w0 (world_of ?r))" using 1(2) by (simp add: Post.simps)
  note ih = 1(1)[OF c consistent_new]
  show ?case
  proof (cases ?r)
    case (Ok w1)
    have p: "pins w1 = pins w" using pins_all(2)[OF Ok] by simp
    have "same_registry w (commit_removals w1)"
      using ih Ok p by (auto simp: same_registry_def commit_pinned)
    then show ?thesis using Ok by (simp add: Post.simps)
  next
    case (Raised x w1)
    then show ?thesis using ih by (simp add: Post.simps same_registry_def)
  qed
next
  case (2 d event it w)
  note cm = 2(4) and co = 2(5)
  show ?case
  proof (cases rule: for_keys_cases[of w it d event])
    case size
    then show ?thesis using co by (simp add: consistent_def)
  next
    case finished
    then show ?thesis by simp
  next
    case (extra i l)
    then show ?thesis using consistent_step(1)[OF co extra(2) refl] by simp
  next
    case (dead i l n)
    show ?thesis
      using 2(1)[OF _ dead(2) refl dead(3,4) _ consistent_next[OF co dead(2) refl dead(3)]]
        cm dead(1,5) by simp
  next
    case (live_ok i l n obj w1)
    let ?it = "\<lparr>di_used = di_used it, di_pos = Suc i, len = n\<rparr>"
    have sp: "since w (world_of (for_keys d event it w)) =
        since w w1 @ since w1 (world_of (for_keys d event ?it (unpin l w1)))"
      unfolding live_ok(6) by (rule since_pass(3)[OF live_ok(5)])
    have c1: "calm (since (pin l w) (world_of (Notify d l event (pin l w))))"
      using cm sp live_ok(5) by simp
    have a: "same_registry (pin l w) w1"
      using 2(2)[OF _ live_ok(2) refl live_ok(3,4) c1] live_ok(1,5) by simp
    have p: "pins w1 = l # pins w" using pins_all(3)[OF live_ok(5)] by simp
    note b = same_registry_pass[OF a p]
    have c2: "calm (since (unpin l w1) (world_of (for_keys d event ?it (unpin l w1))))"
      using cm sp by simp
    have c: "same_registry (unpin l w1) (world_of (for_keys d event ?it (unpin l w1)))"
      "data (world_of (for_keys d event ?it (unpin l w1))) = data w"
      "raised (for_keys d event ?it (unpin l w1)) \<noteq> Some RuntimeError"
      using 2(3)[OF _ live_ok(2) refl live_ok(3,4,5) c2 consistent_next[OF co live_ok(2) b(2) live_ok(3)]]
        live_ok(1) b(2) by simp_all
    have "same_registry w (world_of (for_keys d event ?it (unpin l w1)))"
      using b(1) c(1) by (rule same_registry_trans) (simp add: p)
    then show ?thesis using c(2,3) unfolding live_ok(6) by simp
  next
    case (live_raised i l n obj x w1)
    have c1: "calm (since (pin l w) (world_of (Notify d l event (pin l w))))"
      using cm live_raised(5,6) by simp
    have a: "same_registry (pin l w) w1" "x \<noteq> RuntimeError"
      using 2(2)[OF _ live_raised(2) refl live_raised(3,4) c1] live_raised(1,5) by simp_all
    have o: "set (orphans (pin l w)) \<subseteq> set (orphans w)" by (auto simp: pin_def)
    have "same_registry w w1" "data w1 = data w"
      using a(1) o by (auto simp: same_registry_def)
    then show ?thesis using a(2) live_raised(6) by simp
  qed
next
  case (3 d self event w)
  note cm = 3(3)
  show ?case
  proof (cases "heap w self")
    case None
    then show ?thesis by (simp add: Notify_dead)
  next
    case (Some obj)
    show ?thesis
    proof (cases obj)
      case PygameView
      then show ?thesis using Some by (simp add: Notify_view same_registry_def keys_def)
    next
      case PygameController
      show ?thesis
      proof (cases "event = UpdateEvent \<and> pygame_up w")
        case True
        let ?w0 = "logged (Notified d self event) w"
        let ?r = "perform d (controller_posts (fst (event_get ?w0))) (snd (event_get ?w0))"
        have r: "Notify d self event w = ?r"
          using Some PygameController True by (simp add: Notify_controller)
        have "since w (world_of ?r) = [Notified d self event] @ since (snd (event_get ?w0)) (world_of ?r)"
          using since_step(4)[OF evolves_polled[of w "Notified d self event"], of d] by simp
        then have c: "calm (since (snd (event_get ?w0)) (world_of ?r))" using cm r by simp
        have "same_registry (snd (event_get ?w0)) (world_of ?r)" "raised ?r \<noteq> Some RuntimeError"
          using 3(1)[OF Some PygameController _ _ prod.collapse c] True by simp_all
        then show ?thesis unfolding r
          by (auto intro: same_registry_trans[OF same_registry_polled])
      next
        case False
        then show ?thesis using Some PygameController
          by (auto simp: Notify_controller)
      qed
    next
      case (TickController r)
      then show ?thesis using Some
        by (auto simp: Notify_tick same_registry_counted)
    next
      case (Script n f)
      let ?w1 = "(logged (Notified d self event) w)\<lparr>heap := (heap w)(self \<mapsto> Script (Suc n) f)\<rparr>"
      let ?r = "perform d (f n event) ?w1"
      have r: "Notify d self event w = ?r" using Some Script by (simp add: Notify_script)
      have ev: "evolves w ?w1" using Some Script by (simp add: evolves_counted)
      have "since w (world_of ?r) = [Notified d self event] @ since ?w1 (world_of ?r)"
        using since_step(4)[OF ev, of d] by simp
      then have c: "calm (since ?w1 (world_of ?r))" using cm r by simp
      have "same_registry ?w1 (world_of ?r)" "raised ?r \<noteq> Some RuntimeError"
        using 3(2)[OF Some Script c] by simp_all
      moreover have "same_registry w ?w1" using Some by (simp add: same_registry_counted)
      ultimately show ?thesis unfolding r
        by (auto intro: same_registry_trans)
    qed
  qed
next
  case (4 d w)
  then show ?case by simp
next
  case (5 d l as w)
  have "evolves w (RegisterListener l (logged (Registered l) w))"
    by (simp add: evolves_def)
  from since_step(4)[OF this, of d as] show ?case using 5(2) by (simp add: since_def)
next
  case (6 d l as w)
  have "evolves w (UnregisterListener l (logged (Unregistered l) w))"
    by (simp add: evolves_def)
  from since_step(4)[OF this, of d as] show ?case using 6(2) by (simp add: since_def)
next
  case (7 d l as w)
  have "evolves w (let_go l (logged (Released l) w))"
    by (rule evolves_trans[OF evolves_logged evolves_let_go])
  from since_step(4)[OF this, of d as] show ?case using 7(2) by (simp add: since_def)
next
  case (8 d e as w)
  note cm = 8(3)
  show ?case
  proof (cases d)
    case 0
    then show ?thesis by simp
  next
    case (Suc d')
    show ?thesis
    proof (cases "Post d' e w")
      case (Ok w1)
      have ev: "evolves w w1" using evolves_all(1)[of w d' e] Ok by simp
      have r: "perform d (PostAct e # as) w = perform d as w1" using Suc Ok by simp
      have sp: "since w (world_of (perform d as w1)) = since w w1 @ since w1 (world_of (perform d as w1))"
        by (rule since_step(4)[OF ev])
      have c1: "calm (since w (world_of (Post d' e w)))" using cm r sp Ok by simp
      have c2: "calm (since w1 (world_of (perform d as w1)))" using cm r sp by simp
      have a: "same_registry w w1" using 8(1)[OF Suc c1] Ok by simp
      have b: "same_registry w1 (world_of (perform d as w1))"
        "raised (perform d as w1) \<noteq> Some RuntimeError"
        using 8(2)[OF Suc Ok c2] by simp_all
      have "same_registry w (world_of (perform d as w1))"
        using a b(1) by (rule same_registry_trans) (simp add: pins_all(1)[OF Ok])
      then show ?thesis using b(2) unfolding r by simp
    next
      case (Raised x w1)
      have r: "perform d (PostAct e # as) w = Raised x w1" using Suc Raised by simp
      have c1: "calm (since w (world_of (Post d' e w)))" using cm r Raised by simp
      show ?thesis using 8(1)[OF Suc c1] Raised unfolding r by simp
    qed
  qed
qed

section \<open>Handlers that only post\<close>

lemma entry_ok_mutation: "entry_ok S K x \<Longrightarrow> \<not> mutation x"
  by (cases x) auto

lemma entries_all:
  assumes Q: "QuitEvent \<in> S"
  shows
  "posts_only S w \<Longrightarrow>
     (\<forall>x\<in>set (since w (world_of (Post d e w))).
         entry_ok S (set (keys w)) x \<or> x = Posted d e \<or> (\<exists>l\<in>set (keys w). x = Notified d l e))"
  "posts_only S w \<Longrightarrow> consistent it w \<Longrightarrow>
     (\<forall>x\<in>set (since w (world_of (for_keys d e it w))).
         entry_ok S (set (keys w)) x \<or> (\<exists>l\<in>set (keys w). x = Notified d l e))"
  "posts_only S w \<Longrightarrow>
     (\<forall>x\<in>set (since w (world_of (Notify d l e w))).
         entry_ok S (set (keys w)) x \<or> x = Notified d l e)"
  "posts_only S w \<Longrightarrow> \<forall>a\<in>set as. \<exists>e'\<in>S. a = PostAct e' \<Longrightarrow>
     (\<forall>x\<in>set (since w (world_of (perform d as w))). entry_ok S (set (keys w)) x)"
proof (induct d e w and d e it w and d l e w and d as w rule: Post_for_keys_Notify_perform.induct)
  case (1 d event w)
  let ?w0 = "logged (Posted d event) w"
  have po: "posts_only S ?w0" using 1(2) by (rule evolves_posts_only[OF evolves_logged])
  have "since w (world_of (Post d event w)) =
      [Posted d event] @ since ?w0 (world_of (Post d event w))"
    unfolding Post.simps using since_step(2)[OF evolves_logged] by simp
  then show ?case using 1(1)[OF po consistent_new] by (auto simp: Post.simps)
next
  case (2 d event it w)
  note po = 2(4) and co = 2(5)
  show ?case
  proof (cases rule: for_keys_cases[of w it d event])
    case size
    then show ?thesis by simp
  next
    case finished
    then show ?thesis by simp
  next
    case (extra i l)
    then show ?thesis by simp
  next
    case (dead i l n)
    show ?thesis
      using 2(1)[OF _ dead(2) refl dead(3,4) po consistent_next[OF co dead(2) refl dead(3)]]
        dead(1,5) by simp
  next
    case (live_ok i l n obj w1)
    let ?it = "\<lparr>di_used = di_used it, di_pos = Suc i, len = n\<rparr>"
    have po0: "posts_only S (pin l w)" using po by (rule evolves_posts_only[OF evolves_pin])
    have lk: "l \<in> set (keys w)"
      using consistent_step(3)[OF co live_ok(2) refl] live_ok(4) by (rule Notified_keys[rotated])
    have a: "\<forall>x\<in>set (since w w1). entry_ok S (set (keys w)) x \<or> x = Notified d l event"
      using 2(2)[OF _ live_ok(2) refl live_ok(3,4) po0] live_ok(1,5) by simp
    then have "calm (since (pin l w) (world_of (Notify d l event (pin l w))))"
      using live_ok(5) by (auto simp: calm_iff dest: entry_ok_mutation)
    then have sr: "same_registry (pin l w) w1" using calm_all(3) live_ok(5) by fastforce
    have p: "pins w1 = l # pins w" using pins_all(3)[OF live_ok(5)] by simp
    note b = same_registry_pass[OF sr p]
    have po1: "posts_only S (unpin l w1)"
      using since_pass(2)[OF live_ok(5)] po by (rule evolves_posts_only)
    have k1: "keys (unpin l w1) = keys w" using b(1) by (rule same_registry_keys)
    have c: "\<forall>x\<in>set (since w1 (world_of (for_keys d event ?it (unpin l w1)))).
         entry_ok S (set (keys w)) x \<or> (\<exists>l\<in>set (keys w). x = Notified d l event)"
      using 2(3)[OF _ live_ok(2) refl live_ok(3,4,5) po1 consistent_next[OF co live_ok(2) b(2) live_ok(3)]]
        live_ok(1) k1 by simp
    show ?thesis
      using a c lk since_pass(3)[OF live_ok(5), of ?it] unfolding live_ok(6) by auto
  next
    case (live_raised i l n obj x w1)
    have po0: "posts_only S (pin l w)" using po by (rule evolves_posts_only[OF evolves_pin])
    have lk: "l \<in> set (keys w)"
      using consistent_step(3)[OF co live_raised(2) refl] live_raised(4) by (rule Notified_keys[rotated])
    have a: "\<forall>x\<in>set (since w w1). entry_ok S (set (keys w)) x \<or> x = Notified d l event"
      using 2(2)[OF _ live_raised(2) refl live_raised(3,4) po0] live_raised(1,5) by simp
    show ?thesis using a lk live_raised(6) by auto
  qed
next
  case (3 d self event w)
  note po = 3(3)
  show ?case
  proof (cases "heap w self")
    case None
    then show ?thesis by (simp add: Notify_dead)
  next
    case (Some obj)
    show ?thesis
    proof (cases obj)
      case PygameView
      then show ?thesis using Some by (simp add: Notify_view since_def)
    next
      case PygameController
      show ?thesis
      proof (cases "event = UpdateEvent \<and> pygame_up w")
        case True
        let ?w0 = "logged (Notified d self event) w"
        let ?w1 = "snd (event_get ?w0)"
        let ?r = "perform d (controller_posts (fst (event_get ?w0))) ?w1"
        have r: "Notify d self event w = ?r"
          using Some PygameController True by (simp add: Notify_controller)
        have po1: "posts_only S ?w1" using po by (rule evolves_posts_only[OF evolves_polled])
        have k1: "keys ?w1 = keys w" by (simp add: keys_def)
        have "since w (world_of ?r) = [Notified d self event] @ since ?w1 (world_of ?r)"
          using since_step(4)[OF evolves_polled[of w "Notified d self event"], of d] by simp
        then show ?thesis
          using 3(1)[OF Some PygameController _ _ prod.collapse po1 controller_posts_only[OF Q]]
            True k1 unfolding r by simp
      next
        case False
        then show ?thesis using Some PygameController
          by (auto simp: Notify_controller)
      qed
    next
      case (TickController r)
      then show ?thesis using Some by (auto simp: Notify_tick since_def)
    next
      case (Script n f)
      let ?w1 = "(logged (Notified d self event) w)\<lparr>heap := (heap w)(self \<mapsto> Script (Suc n) f)\<rparr>"
      let ?r = "perform d (f n event) ?w1"
      have r: "Notify d self event w = ?r" using Some Script by (simp add: Notify_script)
      have ev: "evolves w ?w1" using Some Script by (simp add: evolves_counted)
      have po1: "posts_only S ?w1" using ev po by (rule evolves_posts_only)
      have k1: "keys ?w1 = keys w" using Some by (simp add: keys_live_upd)
      have acts: "\<forall>a\<in>set (f n event). \<exists>e'\<in>S. a = PostAct e'"
        using po Some Script unfolding posts_only_def by blast
      have "since w (world_of ?r) = [Notified d self event] @ since ?w1 (world_of ?r)"
        using since_step(4)[OF ev, of d] by simp
      then show ?thesis
        using 3(2)[OF Some Script po1 acts] k1 unfolding r by simp
    qed
  qed
next
  case (4 d w)
  then show ?case by simp
next
  case (5 d l as w)
  then show ?case by simp
next
  case (6 d l as w)
  then show ?case by simp
next
  case (7 d l as w)
  then show ?case by simp
next
  case (8 d e as w)
  note po = 8(3) and acts = 8(4)
  from acts have eS: "e \<in> S" and acts': "\<forall>a\<in>set as. \<exists>e'\<in>S. a = PostAct e'" by auto
  show ?case
  proof (cases d)
    case 0
    then show ?thesis by simp
  next
    case (Suc d')
    have p: "\<forall>x\<in>set (since w (world_of (Post d' e w))). entry_ok S (set (keys w)) x"
      using 8(1)[OF Suc po] eS by auto
    then have "calm (since w (world_of (Post d' e w)))" by (auto simp: calm_iff dest: entry_ok_mutation)
    then have sr: "same_registry w (world_of (Post d' e w))" using calm_all(1) by blast
    show ?thesis
    proof (cases "Post d' e w")
      case (Ok w1)
      have ev: "evolves w w1" using evolves_all(1)[of w d' e] Ok by simp
      have po1: "posts_only S w1" using ev po by (rule evolves_posts_only)
      have k1: "keys w1 = keys w" using sr Ok by (simp add: same_registry_keys)
      from since_step(4)[OF ev, of d as] show ?thesis
        using 8(2)[OF Suc Ok po1 acts'] p Ok Suc k1 by auto
    next
      case (Raised x w1)
      then show ?thesis using p Suc by simp
    qed
  qed
qed

lemma posts_only_calm:
  assumes "posts_only S w" "QuitEvent \<in> S"
  shows "calm (since w (world_of (Post d e w)))"
  using entries_all(1)[OF assms(2,1), of d e] by (auto simp: calm_iff dest: entry_ok_mutation)

lemma quiet_all:
  assumes Q: "QuitEvent \<in> S"
  shows
  "posts_only S w \<Longrightarrow>
     same_registry w (world_of (Post d e w)) \<and> raised (Post d e w) \<noteq> Some RuntimeError \<and>
     (\<forall>x\<in>set (since w (world_of (Post d e w))).
         entry_ok S (set (keys w)) x \<or> x = Posted d e \<or> (\<exists>l\<in>set (keys w). x = Notified d l e))"
  "posts_only S w \<Longrightarrow>
     same_registry w (world_of (Notify d l e w)) \<and> raised (Notify d l e w) \<noteq> Some RuntimeError \<and>
     (\<forall>x\<in>set (since w (world_of (Notify d l e w))).
         entry_ok S (set (keys w)) x \<or> x = Notified d l e)"
proof -
  assume po: "posts_only S w"
  show "same_registry w (world_of (Post d e w)) \<and> raised (Post d e w) \<noteq> Some RuntimeError \<and>
     (\<forall>x\<in>set (since w (world_of (Post d e w))).
         entry_ok S (set (keys w)) x \<or> x = Posted d e \<or> (\<exists>l\<in>set (keys w). x = Notified d l e))"
    using calm_all(1)[OF posts_only_calm[OF po Q]] entries_all(1)[OF Q po] by blast
next
  assume po: "posts_only S w"
  note en = entries_all(3)[OF Q po, of d l e]
  then have "calm (since w (world_of (Notify d l e w)))" by (auto simp: calm_iff dest: entry_ok_mutation)
  from calm_all(3)[OF this] en
  show "same_registry w (world_of (Notify d l e w)) \<and> raised (Notify d l e w) \<noteq> Some RuntimeError \<and>
     (\<forall>x\<in>set (since w (world_of (Notify d l e w))).
         entry_ok S (set (keys w)) x \<or> x = Notified d l e)" by blast
qed

section \<open>What a broadcast does itself\<close>

lemmas for_keys_induct =
  Post_for_keys_Notify_perform.induct(2)[where P = "\<lambda>_ _ _. True" and R = "\<lambda>_ _ _ _. True"
    and S = "\<lambda>_ _ _. True", simplified, case_names step]

text \<open>one pass of the loop over a live listener, when the handler leaves the registry alone\<close>

lemma calm_pass:
  assumes "Notify d l e (pin l w) = Ok w1" "calm (since w w1)" "heap w l \<noteq> None"
  shows "same_registry w (unpin l w1)" "data (unpin l w1) = data w"
    "heap (unpin l w1) = heap w1" "(heap w1 k = None) = (heap w k = None)"
    "direct d (since w w1) = [(l, e)]"
proof -
  have "calm (since (pin l w) (world_of (Notify d l e (pin l w))))" using assms(1,2) by simp
  then have sr: "same_registry (pin l w) w1" using calm_all(3) assms(1) by fastforce
  have p: "pins w1 = l # pins w" using pins_all(3)[OF assms(1)] by simp
  show "same_registry w (unpin l w1)" "data (unpin l w1) = data w" "heap (unpin l w1) = heap w1"
    by (rule same_registry_pass[OF sr p])+
  show "(heap w1 k = None) = (heap w k = None)" using same_registry_live[OF sr] by simp
  obtain xs where "since w w1 = Notified d l e # xs" "\<forall>x\<in>set xs. nested d x"
    using Notify_trace[of "pin l w" l d e] assms(1,3) by auto
  then show "direct d (since w w1) = [(l, e)]" by (simp add: nested_direct)
qed

lemma for_keys_direct:
  "consistent it w \<Longrightarrow> calm (since w w') \<Longrightarrow> for_keys d e it w = Ok w' \<Longrightarrow>
    direct d (since w w') =
      map (\<lambda>l. (l, e)) (filter (\<lambda>k. heap w k \<noteq> None) (entry_keys (drop (di_pos it) (data w))))"
proof (induct d e it w rule: for_keys_induct)
  case (step d event it w)
  note co = step(3) and cm = step(4) and res = step(5)
  show ?case
  proof (cases rule: for_keys_cases[of w it d event])
    case size
    then show ?thesis using res by simp
  next
    case finished
    then show ?thesis using res next_entry_None by auto
  next
    case (extra i l)
    then show ?thesis using res by simp
  next
    case (dead i l n)
    show ?thesis
      using step(1)[OF dead(1,2) refl dead(3,4) consistent_next[OF co dead(2) refl dead(3)] cm]
        dead(4,5) res next_entry_Some[OF dead(2)]
      by simp
  next
    case (live_ok i l n obj w1)
    let ?it = "\<lparr>di_used = di_used it, di_pos = Suc i, len = n\<rparr>"
    have r1: "for_keys d event ?it (unpin l w1) = Ok w'" using live_ok(6) res by simp
    have sp: "since w w' = since w w1 @ since w1 w'"
      using since_pass(3)[OF live_ok(5), of ?it] r1 by simp
    have c1: "calm (since w w1)" and c2: "calm (since (unpin l w1) w')" using cm sp by simp_all
    have h: "heap w l \<noteq> None" using live_ok(4) by simp
    note b = calm_pass[OF live_ok(5) c1 h]
    have live: "(\<lambda>k. heap w1 k \<noteq> None) = (\<lambda>k. heap w k \<noteq> None)" using b(4) by simp
    have "direct d (since w1 w') = map (\<lambda>l. (l, event))
        (filter (\<lambda>k. heap w k \<noteq> None) (entry_keys (drop (Suc i) (data w))))"
      using step(2)[OF live_ok(1,2) refl live_ok(3,4,5) consistent_next[OF co live_ok(2) b(2) live_ok(3)] c2 r1]
        b(2,3) live by simp
    then show ?thesis using sp b(5) next_entry_Some[OF live_ok(2)] live_ok(4) by simp
  next
    case (live_raised i l n obj x w1)
    then show ?thesis using res by simp
  qed
qed

text \<open>
  While the handlers leave the registry alone, the loop over the dictionary is the loop
  over a snapshot of its live keys.
\<close>

lemma for_keys_snapshot:
  "consistent it w \<Longrightarrow> calm (since w (world_of (for_keys d e it w))) \<Longrightarrow>
   for_keys d e it w =
     notify_each d e (filter (\<lambda>k. heap w k \<noteq> None) (entry_keys (drop (di_pos it) (data w)))) w"
proof (induct d e it w rule: for_keys_induct)
  case (step d event it w)
  note co = step(3) and cm = step(4)
  show ?case
  proof (cases rule: for_keys_cases[of w it d event])
    case size
    then show ?thesis using co by (simp add: consistent_def)
  next
    case finished
    then show ?thesis using next_entry_None by auto
  next
    case (extra i l)
    then show ?thesis using consistent_step(1)[OF co extra(2) refl] by simp
  next
    case (dead i l n)
    show ?thesis
      using step(1)[OF dead(1,2) refl dead(3,4) consistent_next[OF co dead(2) refl dead(3)]]
        cm dead(4,5) next_entry_Some[OF dead(2)]
      by simp
  next
    case (live_ok i l n obj w1)
    let ?it = "\<lparr>di_used = di_used it, di_pos = Suc i, len = n\<rparr>"
    have sp: "since w (world_of (for_keys d event it w)) =
        since w w1 @ since w1 (world_of (for_keys d event ?it (unpin l w1)))"
      unfolding live_ok(6) by (rule since_pass(3)[OF live_ok(5)])
    have c1: "calm (since w w1)"
      and c2: "calm (since (unpin l w1) (world_of (for_keys d event ?it (unpin l w1))))"
      using cm sp by simp_all
    have h: "heap w l \<noteq> None" using live_ok(4) by simp
    note b = calm_pass[OF live_ok(5) c1 h]
    have live: "(\<lambda>k. heap w1 k \<noteq> None) = (\<lambda>k. heap w k \<noteq> None)" using b(4) by simp
    have "for_keys d event ?it (unpin l w1) =
        notify_each d event (filter (\<lambda>k. heap w k \<noteq> None) (entry_keys (drop (Suc i) (data w))))
          (unpin l w1)"
      using step(2)[OF live_ok(1,2) refl live_ok(3,4,5) consistent_next[OF co live_ok(2) b(2) live_ok(3)] c2]
        b(2,3) live by simp
    then show ?thesis
      using live_ok(4,5,6) next_entry_Some[OF live_ok(2)] by simp
  next
    case (live_raised i l n obj x w1)
    then show ?thesis using next_entry_Some[OF live_raised(2)] by simp
  qed
qed

lemma Post_snapshot:
  assumes "calm (since w (world_of (Post d e w)))"
  shows "Post d e w = leave (notify_each d e (keys w) (logged (Posted d e) w))"
proof -
  let ?w0 = "logged (Posted d e) w"
  let ?r = "for_keys d e (dictiter_new (data w)) ?w0"
  have "since w (world_of ?r) = [Posted d e] @ since ?w0 (world_of ?r)"
    using since_step(2)[OF evolves_logged] by simp
  then have c: "calm (since ?w0 (world_of ?r))" using assms by (simp add: Post.simps)
  show ?thesis
    using for_keys_snapshot[OF consistent_new c]
    by (simp add: Post.simps dictiter_new_def keys_def)
qed

lemma Post_direct_calm:
  assumes "calm (since w w')" "Post d e w = Ok w'"
  shows "direct d (since w w') = map (\<lambda>l. (l, e)) (keys w)"
proof -
  let ?w0 = "logged (Posted d e) w"
  obtain w1 where r: "for_keys d e (dictiter_new (data w)) ?w0 = Ok w1"
    and w': "w' = commit_removals w1"
    using assms(2) unfolding Post.simps by (auto simp: leave_Ok)
  have e1: "evolves ?w0 w1" using evolves_all(2)[of ?w0 d e "dictiter_new (data w)"] r by simp
  have s: "since w w' = Posted d e # since ?w0 w1"
    using since_trans[OF evolves_logged e1] w' by simp
  then have c: "calm (since ?w0 w1)" using assms(1) by simp
  show ?thesis
    using for_keys_direct[OF consistent_new c r] s
    by (simp add: dictiter_new_def keys_def)
qed

lemma Post_direct:
  assumes "QuitEvent \<in> S" "posts_only S w" "Post d e w = Ok w'"
  shows "direct d (since w w') = map (\<lambda>l. (l, e)) (keys w)"
  using Post_direct_calm[OF _ assms(3)] posts_only_calm[OF assms(2,1), of d e] assms(3) by simp


section \<open>Counting notifications\<close>

lemma count_list_map_pair: "count_list (map (\<lambda>l. (l, e)) ks) (L, e) = count_list ks L"
  by (induction ks) auto

lemma distinct_count_list: "distinct ks \<Longrightarrow> L \<in> set ks \<Longrightarrow> count_list ks L = 1"
  by (induction ks) auto

lemma distinct_keys: "wf_dict w \<Longrightarrow> distinct (keys w)"
  by (simp add: wf_dict_def keys_def)

lemma direct_mem: "(l, e) \<in> set (direct d xs) \<longleftrightarrow> Notified d l e \<in> set xs"
  by (induction d xs rule: direct.induct) auto

lemma seen_count:
  "\<forall>x\<in>set xs. entry_ok S K x \<or> x = Posted d e \<or> (\<exists>l\<in>K. x = Notified d l e) \<Longrightarrow> e0 \<notin> S \<Longrightarrow>
   count_list (seen L xs) e0 = count_list (direct d xs) (L, e0)"
proof (induction xs)
  case Nil
  then show ?case by simp
next
  case (Cons x xs)
  then have IH: "count_list (seen L xs) e0 = count_list (direct d xs) (L, e0)" by simp
  from Cons.prems have x: "entry_ok S K x \<or> x = Posted d e \<or> (\<exists>l\<in>K. x = Notified d l e)" by simp
  show ?case
  proof (cases x)
    case (Notified d' l e')
    then show ?thesis using IH x Cons.prems(2) by auto
  qed (use IH in auto)
qed

lemma seen_absent:
  "\<forall>x\<in>set xs. entry_ok S K x \<or> x = Posted d e \<or> (\<exists>l\<in>K. x = Notified d l e) \<Longrightarrow> L \<notin> K \<Longrightarrow>
   seen L xs = []"
proof (induction xs)
  case Nil
  then show ?case by simp
next
  case (Cons x xs)
  then show ?case by (cases x) auto
qed

lemma posts_only_logged [simp]: "posts_only S (logged x w) = posts_only S w"
  by (simp add: posts_only_def)

lemma wf_dict_logged [simp]: "wf_dict (logged x w) = wf_dict w"
  by (simp add: wf_dict_def)

lemma posts_only_heap: "heap w' = heap w \<Longrightarrow> posts_only S w' = posts_only S w"
  by (simp add: posts_only_def)

lemma distinct_commit: "wf_dict w \<Longrightarrow> wf_dict (commit_removals w)"
  by (simp add: wf_dict_def entry_keys_commit_removals keys_def)

text \<open>
  A broadcast during which no handler touches the registry: what the loop leaves, and
  what the end of the iteration makes of it.
\<close>

lemma Post_calm:
  assumes "calm (since w (world_of (Post d e w)))"
  shows "same_registry w (world_of (Post d e w))" "raised (Post d e w) \<noteq> Some RuntimeError"
    "wf_dict w \<Longrightarrow> wf_dict (world_of (Post d e w))"
    "Post d e w = Ok w' \<Longrightarrow>
       \<exists>w1. for_keys d e (dictiter_new (data w)) (logged (Posted d e) w) = Ok w1 \<and>
            data w1 = data w \<and> (\<forall>k. (heap w1 k = None) = (heap w k = None)) \<and>
            pins w1 = pins w \<and> w' = commit_removals w1"
proof -
  let ?w0 = "logged (Posted d e) w"
  let ?r = "for_keys d e (dictiter_new (data w)) ?w0"
  show "same_registry w (world_of (Post d e w))" "raised (Post d e w) \<noteq> Some RuntimeError"
    using calm_all(1)[OF assms] by simp_all
  have "since w (world_of ?r) = [Posted d e] @ since ?w0 (world_of ?r)"
    using since_step(2)[OF evolves_logged] by simp
  then have c: "calm (since ?w0 (world_of ?r))" using assms by (simp add: Post.simps)
  note a = calm_all(2)[OF c consistent_new]
  show "wf_dict (world_of (Post d e w))" if "wf_dict w"
  proof (cases ?r)
    case (Ok w1)
    then have "wf_dict w1" using a that by (simp add: wf_dict_def)
    then show ?thesis using Ok by (simp add: Post.simps distinct_commit)
  next
    case (Raised x w1)
    then show ?thesis using a that by (simp add: Post.simps wf_dict_def)
  qed
  show "\<exists>w1. ?r = Ok w1 \<and> data w1 = data w \<and> (\<forall>k. (heap w1 k = None) = (heap w k = None)) \<and>
      pins w1 = pins w \<and> w' = commit_removals w1"
    if P: "Post d e w = Ok w'"
  proof -
    obtain w1 where r: "?r = Ok w1" and w': "w' = commit_removals w1"
      using P unfolding Post.simps by (auto simp: leave_Ok)
    have "data w1 = data w" "\<forall>k. (heap w1 k = None) = (heap w k = None)"
      using a r by (simp_all add: same_registry_def)
    moreover have "pins w1 = pins w" using pins_all(2)[OF r] by simp
    ultimately show ?thesis using r w' by blast
  qed
qed

lemma Post_seen:
  assumes "QuitEvent \<in> S" "posts_only S w" "wf_dict w" "e0 \<notin> S" "Post d e w = Ok w'"
    "L \<in> set (keys w)"
  shows "count_list (seen L (since w w')) e0 = (if e = e0 then 1 else 0)"
    "posts_only S w'" "wf_dict w'" "keys w' = keys w" "evolves w w'"
proof -
  have q: "same_registry w w'"
    "\<forall>x\<in>set (since w w'). entry_ok S (set (keys w)) x \<or> x = Posted d e \<or> (\<exists>l\<in>set (keys w). x = Notified d l e)"
    using quiet_all(1)[OF assms(1,2), of d e] assms(5) by simp_all
  have ev: "evolves w w'" using evolves_all(1)[of w d e] assms(5) by simp
  show "evolves w w'" by (rule ev)
  show "posts_only S w'" using ev assms(2) by (rule evolves_posts_only)
  show "wf_dict w'"
    using Post_calm(3)[OF posts_only_calm[OF assms(2,1)] assms(3), of d e] assms(5) by simp
  show "keys w' = keys w" using q(1) by (rule same_registry_keys)
  have "count_list (seen L (since w w')) e0 = count_list (direct d (since w w')) (L, e0)"
    using q(2) assms(4) by (rule seen_count)
  also have "\<dots> = count_list (map (\<lambda>l. (l, e)) (keys w)) (L, e0)"
    using Post_direct[OF assms(1,2,5)] by simp
  also have "\<dots> = (if e = e0 then 1 else 0)"
  proof (cases "e = e0")
    case True
    then show ?thesis
      using distinct_count_list[OF distinct_keys[OF assms(3)] assms(6)]
      by (simp add: count_list_map_pair)
  next
    case False
    then show ?thesis by (auto simp: count_list_0_iff)
  qed
  finally show "count_list (seen L (since w w')) e0 = (if e = e0 then 1 else 0)" .
qed

lemma Post_unregistered:
  assumes "posts_only UNIV w" "L \<notin> set (keys w)"
  shows "seen L (since w (world_of (Post d e w))) = []" "keys (world_of (Post d e w)) = keys w"
proof -
  note q = quiet_all(1)[of UNIV w d e, simplified, OF assms(1)]
  show "seen L (since w (world_of (Post d e w))) = []"
    using q assms(2) seen_absent[of "since w (world_of (Post d e w))" UNIV "set (keys w)" d e L]
    by simp
  show "keys (world_of (Post d e w)) = keys w"
    using q by (simp add: same_registry_keys)
qed

section \<open>Broadcasts that return\<close>

lemma posts_only_mono: "S \<subseteq> T \<Longrightarrow> posts_only S w \<Longrightarrow> posts_only T w"
  unfolding posts_only_def by blast

lemma controller_posts_Quit: "\<forall>a\<in>set (controller_posts es). a = PostAct QuitEvent"
  by (induction es rule: controller_posts.induct) auto

text \<open>
  With the listeners of the source and scripts that do nothing, a broadcast returns when
  pygame is up for the events that need it (the view draws on a \<^verbatim>\<open>DrawEvent\<close>, the
  controller polls on an \<^verbatim>\<open>UpdateEvent\<close>) and the stack has room for the
  \<^verbatim>\<open>Post(QuitEvent())\<close> of the controller. Only a \<^verbatim>\<open>QuitCleanupEvent\<close> takes pygame
  down.
\<close>

lemma returns_all:
  "posts_only {} w \<Longrightarrow> (e = DrawEvent \<or> e = UpdateEvent \<longrightarrow> pygame_up w) \<Longrightarrow>
   0 < d \<or> e \<noteq> UpdateEvent \<Longrightarrow>
     returned (Post d e w) \<and>
     (e \<noteq> QuitCleanupEvent \<longrightarrow> pygame_up (world_of (Post d e w)) = pygame_up w)"
  "posts_only {} w \<Longrightarrow> consistent it w \<Longrightarrow> (e = DrawEvent \<or> e = UpdateEvent \<longrightarrow> pygame_up w) \<Longrightarrow>
   0 < d \<or> e \<noteq> UpdateEvent \<Longrightarrow>
     returned (for_keys d e it w) \<and>
     (e \<noteq> QuitCleanupEvent \<longrightarrow> pygame_up (world_of (for_keys d e it w)) = pygame_up w)"
  "posts_only {} w \<Longrightarrow> (e = DrawEvent \<or> e = UpdateEvent \<longrightarrow> pygame_up w) \<Longrightarrow>
   0 < d \<or> e \<noteq> UpdateEvent \<Longrightarrow>
     returned (Notify d l e w) \<and>
     (e \<noteq> QuitCleanupEvent \<longrightarrow> pygame_up (world_of (Notify d l e w)) = pygame_up w)"
  "posts_only {} w \<Longrightarrow> \<forall>a\<in>set as. a = PostAct QuitEvent \<Longrightarrow> 0 < d \<or> as = [] \<Longrightarrow>
     returned (perform d as w) \<and> pygame_up (world_of (perform d as w)) = pygame_up w"
proof (induct d e w and d e it w and d l e w and d as w rule: Post_for_keys_Notify_perform.induct)
  case (1 d event w)
  have po: "posts_only {} (logged (Posted d event) w)" using 1(2) by simp
  have up: "event = DrawEvent \<or> event = UpdateEvent \<longrightarrow> pygame_up (logged (Posted d event) w)"
    using 1(3) by simp
  from 1(1)[OF po consistent_new up 1(4)] show ?case
    by (simp add: Post.simps world_of_leave)
next
  case (2 d event it w)
  note po = 2(4) and co = 2(5) and up = 2(6) and de = 2(7)
  have poQ: "posts_only {QuitEvent} w'" if "posts_only {} w'" for w'
    using that by (rule posts_only_mono[rotated]) simp
  show ?case
  proof (cases rule: for_keys_cases[of w it d event])
    case size
    then show ?thesis using co by (simp add: consistent_def)
  next
    case finished
    then show ?thesis by simp
  next
    case (extra i l)
    then show ?thesis using consistent_step(1)[OF co extra(2) refl] by simp
  next
    case (dead i l n)
    show ?thesis
      using 2(1)[OF _ dead(2) refl dead(3,4) po consistent_next[OF co dead(2) refl dead(3)] up de]
        dead(1,5) by simp
  next
    case (live_ok i l n obj w1)
    let ?it = "\<lparr>di_used = di_used it, di_pos = Suc i, len = n\<rparr>"
    have po0: "posts_only {} (pin l w)" using po by (rule evolves_posts_only[OF evolves_pin])
    have up0: "event = DrawEvent \<or> event = UpdateEvent \<longrightarrow> pygame_up (pin l w)"
      using up by simp
    have a: "event \<noteq> QuitCleanupEvent \<longrightarrow> pygame_up w1 = pygame_up w"
      using 2(2)[OF _ live_ok(2) refl live_ok(3,4) po0 up0 de] live_ok(1,5) by simp
    have sr: "same_registry (pin l w) w1"
      using quiet_all(2)[of "{QuitEvent}" "pin l w" d l event] poQ[OF po0] live_ok(5) by simp
    have p: "pins w1 = l # pins w" using pins_all(3)[OF live_ok(5)] by simp
    note b = same_registry_pass[OF sr p]
    have po1: "posts_only {} (unpin l w1)"
      using since_pass(2)[OF live_ok(5)] po by (rule evolves_posts_only)
    have up1: "event = DrawEvent \<or> event = UpdateEvent \<longrightarrow> pygame_up (unpin l w1)"
      using up a by auto
    show ?thesis
      using 2(3)[OF _ live_ok(2) refl live_ok(3,4,5) po1 consistent_next[OF co live_ok(2) b(2) live_ok(3)] up1 de]
        live_ok(1,6) a by simp
  next
    case (live_raised i l n obj x w1)
    have po0: "posts_only {} (pin l w)" using po by (rule evolves_posts_only[OF evolves_pin])
    have up0: "event = DrawEvent \<or> event = UpdateEvent \<longrightarrow> pygame_up (pin l w)"
      using up by simp
    show ?thesis
      using 2(2)[OF _ live_raised(2) refl live_raised(3,4) po0 up0 de] live_raised(1,5) by simp
  qed
next
  case (3 d self event w)
  note po = 3(3) and up = 3(4) and de = 3(5)
  show ?case
  proof (cases "heap w self")
    case None
    then show ?thesis by (simp add: Notify_dead)
  next
    case (Some obj)
    show ?thesis
    proof (cases obj)
      case PygameView
      then show ?thesis using Some up by (simp add: Notify_view)
    next
      case PygameController
      show ?thesis
      proof (cases "event = UpdateEvent")
        case True
        let ?w0 = "logged (Notified d self event) w"
        have u: "pygame_up w" using up True by simp
        have po1: "posts_only {} (snd (event_get ?w0))"
          using po by (rule evolves_posts_only[OF evolves_polled])
        have "0 < d" using de True by simp
        then show ?thesis
          using 3(1)[OF Some PygameController True u prod.collapse po1 controller_posts_Quit]
            Some PygameController True u
          by (simp add: Notify_controller)
      next
        case False
        then show ?thesis using Some PygameController by (simp add: Notify_controller)
      qed
    next
      case (TickController r)
      then show ?thesis using Some by (simp add: Notify_tick)
    next
      case (Script n f)
      let ?w1 = "(logged (Notified d self event) w)\<lparr>heap := (heap w)(self \<mapsto> Script (Suc n) f)\<rparr>"
      have ev: "evolves w ?w1" using Some Script by (simp add: evolves_counted)
      have po1: "posts_only {} ?w1" using ev po by (rule evolves_posts_only)
      have "\<forall>a. a \<notin> set (f n event)"
        using po Some Script unfolding posts_only_def by blast
      then have acts: "f n event = []" by (cases "f n event") auto
      show ?thesis using 3(2)[OF Some Script po1] acts Some Script by (simp add: Notify_script)
    qed
  qed
next
  case (4 d w)
  then show ?case by simp
next
  case (5 d l as w)
  then show ?case by simp
next
  case (6 d l as w)
  then show ?case by simp
next
  case (7 d l as w)
  then show ?case by simp
next
  case (8 d e as w)
  note po = 8(3)
  from 8(4) have e: "e = QuitEvent" and acts: "\<forall>a\<in>set as. a = PostAct QuitEvent" by auto
  from 8(5) obtain d' where d: "d = Suc d'" by (cases d) auto
  have r1: "returned (Post d' e w)" "pygame_up (world_of (Post d' e w)) = pygame_up w"
    using 8(1)[OF d po] e by simp_all
  then obtain w1 where p: "Post d' e w = Ok w1" by (cases "Post d' e w") auto
  have e1: "evolves w w1" using evolves_all(1)[of w d' e] p by simp
  have po1: "posts_only {} w1" using e1 po by (rule evolves_posts_only)
  have "returned (perform d as w1)" "pygame_up (world_of (perform d as w1)) = pygame_up w1"
    using 8(2)[OF d p po1 acts] d by simp_all
  then show ?case using p d r1(2) by simp
qed


section \<open>Running the example worlds\<close>

lemmas run_simps = Post.simps for_keys.simps Notify.simps event_get.simps
  dictiter_new_def used_def next_entry_def logged_def echo_def pin_def unpin_def
  commit_removals_def let_go_def

lemma returned_Ok: "returned r \<Longrightarrow> r = Ok (world_of r)"
  by (cases r) auto

lemma returned_Some: "map_option returned x = Some True \<Longrightarrow> x = Some (Ok (world_of (the x)))"
  by (cases x) (auto dest: returned_Ok)

lemma iterations_numeral:
  "iterations (numeral k) d self w =
     (if heap w self = Some (TickController True)
      then (case loop_body d w of Ok w' \<Rightarrow> iterations (pred_numeral k) d self w' | Raised e w' \<Rightarrow> None)
      else None)"
  by (simp add: numeral_eq_Suc)

lemma demo_fields:
  "heap demo = (\<lambda>l. None)(0 \<mapsto> PygameController, 1 \<mapsto> TickController True, 2 \<mapsto> PygameView,
      3 \<mapsto> Script 0 echo)"
  "data demo = [Some (0, 1), Some (1, 1), Some (2, 1), Some (3, 1)]"
  "queue demo = [[], [QUIT]]"
  "log demo = [DrawBackground]"
  "pins demo = []" "orphans demo = []" "pygame_up demo = True"
  by (simp_all add: demo_def with_echo_def main_setup_def fresh_def PygameView_init_def TickController_init_def
      PygameController_init_def RegisterListener_def logged_def)

lemma demo_keys: "keys demo = [0, 1, 2, 3]"
  by (simp add: keys_def demo_fields)

lemma demo_posts_only: "posts_only UNIV demo"
  by (auto simp: posts_only_def demo_fields echo_def split: if_splits)

lemma demo_wf: "wf_dict demo"
  by (simp add: wf_dict_def demo_fields)

lemma demo_Draw:
  "returned (Post 3 DrawEvent demo)"
  "log (world_of (Post 3 DrawEvent demo)) =
     [DrawBackground, Posted 3 DrawEvent, Notified 3 0 DrawEvent, Notified 3 1 DrawEvent,
      Notified 3 2 DrawEvent, DrawBackground, Notified 3 3 DrawEvent, Posted 2 Event,
      Notified 2 0 Event, Notified 2 1 Event, Notified 2 2 Event, Notified 2 3 Event]"
  by (simp_all add: run_simps demo_fields)

lemma five_fields:
  "heap five = (\<lambda>l. None)(0 \<mapsto> PygameController, 1 \<mapsto> TickController True, 2 \<mapsto> PygameView,
      3 \<mapsto> Script 0 echo)"
  "data five = [Some (0, 1), Some (1, 1), Some (2, 1), Some (3, 1)]"
  "queue five = [[], [], [], [], [QUIT]]"
  "log five = [DrawBackground]"
  "pins five = []" "orphans five = []" "pygame_up five = True"
  by (simp_all add: five_def with_echo_def main_setup_def fresh_def PygameView_init_def
      TickController_init_def PygameController_init_def RegisterListener_def logged_def)

lemma five_iterations: "iterations 5 3 1 five \<noteq> None"
  by (simp add: iterations_numeral loop_body_def tick_def run_simps five_fields)

lemma quitting_fields:
  "heap quitting = (\<lambda>l. None)(0 \<mapsto> PygameController, 1 \<mapsto> TickController True, 2 \<mapsto> PygameView,
      3 \<mapsto> Script 0 echo)"
  "data quitting = [Some (0, 1), Some (1, 1), Some (2, 1), Some (3, 1)]"
  "queue quitting = [[QUIT]]"
  "log quitting = [DrawBackground]"
  "pins quitting = []" "orphans quitting = []" "pygame_up quitting = True"
  by (simp_all add: quitting_def with_echo_def main_setup_def fresh_def PygameView_init_def
      TickController_init_def PygameController_init_def RegisterListener_def logged_def)

lemma quitting_Update:
  "returned (Post 3 UpdateEvent quitting)"
  "heap (world_of (Post 3 UpdateEvent quitting)) 1 = Some (TickController False)"
  by (simp_all add: run_simps quitting_fields)

lemma quitting_Update_log:
  "since quitting (world_of (Post 3 UpdateEvent quitting)) =
     [Posted 3 UpdateEvent, Notified 3 0 UpdateEvent, Posted 2 QuitEvent, Notified 2 0 QuitEvent,
      Notified 2 1 QuitEvent, Notified 2 2 QuitEvent, Notified 2 3 QuitEvent,
      Notified 3 1 UpdateEvent, Notified 3 2 UpdateEvent, Notified 3 3 UpdateEvent]"
  by (simp add: run_simps quitting_fields since_def)

lemma quitting_run: "map_option returned (Run 3 1 quitting) = Some True"
  by (simp add: Run_def run_loop.simps loop_body_def tick_def run_simps quitting_fields)

lemma quitting_run_log:
  "map_option (\<lambda>r. Notified 2 1 QuitEvent \<in> set (since quitting (world_of r))) (Run 3 1 quitting) = Some True"
  by (simp add: Run_def run_loop.simps loop_body_def tick_def run_simps quitting_fields since_def)

lemma three_fields:
  "heap (three f) = (\<lambda>l. None)(0 \<mapsto> Script 0 f, 1 \<mapsto> Script 0 silent, 2 \<mapsto> Script 0 silent)"
  "data (three f) = [Some (0, 1), Some (1, 1)]"
  "queue (three f) = []"
  "log (three f) = []"
  "pins (three f) = []" "orphans (three f) = []" "pygame_up (three f) = False"
  by (simp_all add: three_def fresh_def RegisterListener_def)

lemma three_keys: "keys (three f) = [0, 1]"
  by (simp add: keys_def three_fields)

lemma demo_reclaimed: "returned (Post 3 DrawEvent (reclaim 2 demo))"
  by (simp add: run_simps demo_fields reclaim_def)

lemma quitting_iteration:
  "iterations 1 3 1 quitting \<noteq> None"
  "heap (the (iterations 1 3 1 quitting)) 1 = Some (TickController False)"
  by (simp_all add: loop_body_def tick_def run_simps quitting_fields)

lemma main_setup_heap:
  "heap (main_setup q) = (\<lambda>l. None)(0 \<mapsto> PygameController, 1 \<mapsto> TickController True, 2 \<mapsto> PygameView)"
  "pygame_up (main_setup q) = True"
  by (simp_all add: main_setup_def fresh_def PygameView_init_def TickController_init_def
      PygameController_init_def RegisterListener_def logged_def)

lemma closed_fields:
  "heap closed = heap demo" "data closed = data demo" "queue closed = queue demo"
  "log closed = log demo" "pins closed = []" "orphans closed = []" "pygame_up closed = False"
  by (simp_all add: closed_def demo_fields)

lemma closed_keys: "keys closed = [0, 1, 2, 3]"
  by (simp add: keys_def closed_fields demo_fields)

section \<open>The broadcast reaches every listener once\<close>

text \<open>one call of a handler that leaves the registry alone, however it ends\<close>

lemma calm_call:
  assumes "calm (since w (world_of (Notify d l e (pin l w))))" "heap w l \<noteq> None"
  shows "direct d (since w (world_of (Notify d l e (pin l w)))) = [(l, e)]"
proof -
  obtain xs where "since w (world_of (Notify d l e (pin l w))) = Notified d l e # xs"
    "\<forall>x\<in>set xs. nested d x"
    using Notify_trace[of "pin l w" l d e] assms(2) by auto
  then show ?thesis by (simp add: nested_direct)
qed

text \<open>
  While the handlers leave the registry alone, the calls of \<^verbatim>\<open>Notify\<close> that the loop
  makes go down the live keys still to come, and reach the end when the loop returns.
\<close>

lemma for_keys_prefix:
  "consistent it w \<Longrightarrow> calm (since w (world_of (for_keys d e it w))) \<Longrightarrow>
    \<exists>n. direct d (since w (world_of (for_keys d e it w))) =
      map (\<lambda>l. (l, e))
        (take n (filter (\<lambda>k. heap w k \<noteq> None) (entry_keys (drop (di_pos it) (data w)))))"
proof (induct d e it w rule: for_keys_induct)
  case (step d event it w)
  note co = step(3) and cm = step(4)
  show ?case
  proof (cases rule: for_keys_cases[of w it d event])
    case size
    then show ?thesis by (simp add: exI[of _ 0])
  next
    case finished
    then show ?thesis by (simp add: exI[of _ 0])
  next
    case (extra i l)
    then show ?thesis by (simp add: exI[of _ 0])
  next
    case (dead i l n)
    show ?thesis
      using step(1)[OF dead(1,2) refl dead(3,4) consistent_next[OF co dead(2) refl dead(3)]]
        cm dead(4,5) next_entry_Some[OF dead(2)]
      by simp
  next
    case (live_ok i l n obj w1)
    let ?it = "\<lparr>di_used = di_used it, di_pos = Suc i, len = n\<rparr>"
    let ?r = "for_keys d event ?it (unpin l w1)"
    let ?rest = "filter (\<lambda>k. heap w k \<noteq> None) (entry_keys (drop (Suc i) (data w)))"
    have sp: "since w (world_of (for_keys d event it w)) = since w w1 @ since w1 (world_of ?r)"
      unfolding live_ok(6) by (rule since_pass(3)[OF live_ok(5)])
    have c1: "calm (since w w1)" and c2: "calm (since (unpin l w1) (world_of ?r))"
      using cm sp by simp_all
    have h: "heap w l \<noteq> None" using live_ok(4) by simp
    note b = calm_pass[OF live_ok(5) c1 h]
    have live: "(\<lambda>k. heap w1 k \<noteq> None) = (\<lambda>k. heap w k \<noteq> None)" using b(4) by simp
    obtain m where m: "direct d (since w1 (world_of ?r)) = map (\<lambda>l. (l, event)) (take m ?rest)"
      using step(2)[OF live_ok(1,2) refl live_ok(3,4,5) consistent_next[OF co live_ok(2) b(2) live_ok(3)] c2]
        b(2,3) live by auto
    have "direct d (since w (world_of (for_keys d event it w))) =
        map (\<lambda>l. (l, event)) (take (Suc m) (l # ?rest))"
      using sp b(5) m by simp
    then show ?thesis using next_entry_Some[OF live_ok(2)] live_ok(4) by (auto intro: exI[of _ "Suc m"])
  next
    case (live_raised i l n obj x w1)
    let ?rest = "filter (\<lambda>k. heap w k \<noteq> None) (entry_keys (drop (Suc i) (data w)))"
    have h: "heap w l \<noteq> None" using live_raised(4) by simp
    have "calm (since w (world_of (Notify d l event (pin l w))))"
      using cm live_raised(5,6) by simp
    from calm_call[OF this h]
    have "direct d (since w (world_of (for_keys d event it w))) =
        map (\<lambda>l. (l, event)) (take (Suc 0) (l # ?rest))"
      using live_raised(5,6) by simp
    then show ?thesis using next_entry_Some[OF live_raised(2)] live_raised(4)
      by (auto intro: exI[of _ "Suc 0"])
  qed
qed

lemma Post_prefix:
  assumes "calm (since w (world_of (Post d e w)))"
  shows "\<exists>n. direct d (since w (world_of (Post d e w))) = map (\<lambda>l. (l, e)) (take n (keys w))"
proof -
  let ?w0 = "logged (Posted d e) w"
  let ?r = "for_keys d e (dictiter_new (data w)) ?w0"
  have s: "since w (world_of ?r) = [Posted d e] @ since ?w0 (world_of ?r)"
    using since_step(2)[OF evolves_logged] by simp
  then have c: "calm (since ?w0 (world_of ?r))" using assms by (simp add: Post.simps)
  show ?thesis
    using for_keys_prefix[OF consistent_new c] s
    by (simp add: Post.simps dictiter_new_def keys_def)
qed

text \<open>
  C1 as stated fails: a listener that is registered and alive when \<^verbatim>\<open>Post\<close> is called
  need not be notified. In \<open>releasing\<close> the handler of listener 0 makes the owner of
  listener 1 let go of it; listener 1 is reclaimed, the loop passes over its key, and
  the call returns without having called its \<^verbatim>\<open>Notify\<close>. In \<open>growing\<close> the handler of
  listener 0 registers a listener, the dictionary raises \<^verbatim>\<open>RuntimeError\<close> at the next
  step of the loop, and listener 1 is not reached. In \<open>closed\<close>, where
  \<^verbatim>\<open>pygame.quit()\<close> has run, the view raises \<^verbatim>\<open>pygame.error\<close> on a \<^verbatim>\<open>DrawEvent\<close>
  (an instance of \<^verbatim>\<open>RuntimeError\<close> too), and listener 3, which comes after the view,
  is not reached.
\<close>

theorem Post_misses_live_listener:
  "1 \<in> set (keys releasing) \<and> returned (Post 3 DrawEvent releasing) \<and>
   count_list (direct 3 (since releasing (world_of (Post 3 DrawEvent releasing)))) (1, DrawEvent) = 0 \<and>
   keys (world_of (Post 3 DrawEvent releasing)) = [0] \<and>
   1 \<in> set (keys growing) \<and>
   count_list (direct 3 (since growing (world_of (Post 3 DrawEvent growing)))) (1, DrawEvent) = 0 \<and>
   3 \<in> set (keys closed) \<and> raised (Post 3 DrawEvent closed) = Some PygameError \<and>
   isinstance_RuntimeError PygameError \<and>
   count_list (direct 3 (since closed (world_of (Post 3 DrawEvent closed)))) (3, DrawEvent) = 0"
  by (simp add: releasing_def growing_def three_keys three_fields closed_keys closed_fields
      demo_fields run_simps releaser_def spawner_def silent_def RegisterListener_def keys_def
      since_def)

text \<open>
  C1, as the code has it. Of a call \<open>Post d e w\<close> during which no handler registers,
  unregisters or releases a listener: the call is the record of the post followed by one
  call of \<^verbatim>\<open>Notify\<close> with the event \<open>e\<close> on each listener that is registered and alive
  when it begins, in the order of the registry, ended by the first of these calls that
  raises, whose exception it passes on. So the calls of \<^verbatim>\<open>Notify\<close> that it makes go
  down the registered live listeners from the first, each with \<open>e\<close>, and when it returns
  it has made exactly one for each of them: a listener \<open>L\<close> among them has been notified
  once by this call, of \<open>e\<close> and of nothing else. This is the case whenever the handlers
  of the scripts do nothing but post; when moreover none posts \<open>e\<close> itself, \<open>L\<close> is
  notified of \<open>e\<close> once in all while the call runs, the broadcasts nested in it included.
  And the call does return when the only handlers are those of the source and scripts
  that do nothing, pygame is up if the event is one that the view draws on or the
  controller polls on, and the stack admits the one nested broadcast that the controller
  makes during an Update.
\<close>

theorem calm_Post_notifies_each_listener_once:
  "(calm (since w (world_of (Post d e w))) \<longrightarrow>
      Post d e w = leave (notify_each d e (keys w) (logged (Posted d e) w)) \<and>
      (\<exists>n. direct d (since w (world_of (Post d e w))) = map (\<lambda>l. (l, e)) (take n (keys w))) \<and>
      (\<forall>w'. Post d e w = Ok w' \<longrightarrow>
         direct d (since w w') = map (\<lambda>l. (l, e)) (keys w) \<and>
         (wf_dict w \<and> L \<in> set (keys w) \<longrightarrow>
            count_list (direct d (since w w')) (L, e) = 1 \<and>
            (\<forall>e'. e' \<noteq> e \<longrightarrow> count_list (direct d (since w w')) (L, e') = 0)))) \<and>
   (QuitEvent \<in> S \<and> posts_only S w \<longrightarrow>
      calm (since w (world_of (Post d e w))) \<and>
      (e \<notin> S \<and> wf_dict w \<and> L \<in> set (keys w) \<longrightarrow>
         (\<forall>w'. Post d e w = Ok w' \<longrightarrow> count_list (seen L (since w w')) e = 1))) \<and>
   (posts_only {} w \<and> (e = DrawEvent \<or> e = UpdateEvent \<longrightarrow> pygame_up w) \<and>
    (0 < d \<or> e \<noteq> UpdateEvent) \<longrightarrow> returned (Post d e w))"
proof -
  have a: "Post d e w = leave (notify_each d e (keys w) (logged (Posted d e) w)) \<and>
      (\<exists>n. direct d (since w (world_of (Post d e w))) = map (\<lambda>l. (l, e)) (take n (keys w))) \<and>
      (\<forall>w'. Post d e w = Ok w' \<longrightarrow>
         direct d (since w w') = map (\<lambda>l. (l, e)) (keys w) \<and>
         (wf_dict w \<and> L \<in> set (keys w) \<longrightarrow>
            count_list (direct d (since w w')) (L, e) = 1 \<and>
            (\<forall>e'. e' \<noteq> e \<longrightarrow> count_list (direct d (since w w')) (L, e') = 0)))"
    if cm: "calm (since w (world_of (Post d e w)))"
  proof -
    have "direct d (since w w') = map (\<lambda>l. (l, e)) (keys w) \<and>
         (wf_dict w \<and> L \<in> set (keys w) \<longrightarrow>
            count_list (direct d (since w w')) (L, e) = 1 \<and>
            (\<forall>e'. e' \<noteq> e \<longrightarrow> count_list (direct d (since w w')) (L, e') = 0))"
      if P: "Post d e w = Ok w'" for w'
    proof -
      have c: "calm (since w w')" using cm P by simp
      have d: "direct d (since w w') = map (\<lambda>l. (l, e)) (keys w)"
        using Post_direct_calm[OF c P] .
      moreover have "count_list (map (\<lambda>l. (l, e)) (keys w)) (L, e) = 1"
        if "wf_dict w" "L \<in> set (keys w)"
        using distinct_count_list[OF distinct_keys[OF that(1)] that(2)]
        by (simp add: count_list_map_pair)
      moreover have "\<forall>e'. e' \<noteq> e \<longrightarrow> count_list (map (\<lambda>l. (l, e)) (keys w)) (L, e') = 0"
        by (auto simp: count_list_0_iff)
      ultimately show ?thesis by simp
    qed
    then show ?thesis using Post_snapshot[OF cm] Post_prefix[OF cm] by blast
  qed
  have b: "calm (since w (world_of (Post d e w))) \<and>
      (e \<notin> S \<and> wf_dict w \<and> L \<in> set (keys w) \<longrightarrow>
         (\<forall>w'. Post d e w = Ok w' \<longrightarrow> count_list (seen L (since w w')) e = 1))"
    if h: "QuitEvent \<in> S" "posts_only S w"
    using posts_only_calm[OF h(2,1), of d e] Post_seen(1)[OF h, of e d e _ L] by auto
  show ?thesis using a b returns_all(1)[of w e d] by blast
qed

theorem calm_Post_notifies_each_listener_once_witness:
  "calm (since demo (world_of (Post 3 DrawEvent demo))) \<and>
   Post 3 DrawEvent demo = leave (notify_each 3 DrawEvent [0, 1, 2, 3] (logged (Posted 3 DrawEvent) demo)) \<and>
   returned (Post 3 DrawEvent demo) \<and>
   direct 3 (since demo (world_of (Post 3 DrawEvent demo))) =
     [(0, DrawEvent), (1, DrawEvent), (2, DrawEvent), (3, DrawEvent)] \<and>
   wf_dict demo \<and> 3 \<in> set (keys demo) \<and>
   count_list (direct 3 (since demo (world_of (Post 3 DrawEvent demo)))) (3, DrawEvent) = 1 \<and>
   posts_only {Event, QuitEvent} demo \<and>
   count_list (seen 3 (since demo (world_of (Post 3 DrawEvent demo)))) DrawEvent = 1 \<and>
   calm (since closed (world_of (Post 3 DrawEvent closed))) \<and>
   raised (Post 3 DrawEvent closed) = Some PygameError \<and>
   direct 3 (since closed (world_of (Post 3 DrawEvent closed))) =
     [(0, DrawEvent), (1, DrawEvent), (2, DrawEvent)] \<and>
   posts_only {} (main_setup [[QUIT]]) \<and> pygame_up (main_setup [[QUIT]]) \<and>
   returned (Post 1 UpdateEvent (main_setup [[QUIT]]))"
proof -
  have r: "Post 3 DrawEvent demo = Ok (world_of (Post 3 DrawEvent demo))"
    using demo_Draw(1) by (rule returned_Ok)
  have k: "3 \<in> set (keys demo)" by (simp add: demo_keys)
  have po: "posts_only {Event, QuitEvent} demo"
    by (auto simp: posts_only_def demo_fields echo_def split: if_splits)
  have pm: "posts_only {} (main_setup [[QUIT]])"
    by (auto simp: posts_only_def main_setup_heap split: if_splits)
  have c: "calm (since demo (world_of (Post 3 DrawEvent demo)))"
    by (simp add: since_def demo_Draw(2) demo_fields)
  have cl: "raised (Post 3 DrawEvent closed) = Some PygameError"
    "log (world_of (Post 3 DrawEvent closed)) =
       [DrawBackground, Posted 3 DrawEvent, Notified 3 0 DrawEvent, Notified 3 1 DrawEvent,
        Notified 3 2 DrawEvent]"
    by (simp_all add: run_simps closed_fields demo_fields)
  have cc: "calm (since closed (world_of (Post 3 DrawEvent closed)))"
    by (simp add: since_def cl(2) closed_fields demo_fields)
  note t = calm_Post_notifies_each_listener_once[of demo 3 DrawEvent 3 "{Event, QuitEvent}"]
  have a: "Post 3 DrawEvent demo = leave (notify_each 3 DrawEvent (keys demo) (logged (Posted 3 DrawEvent) demo))"
    "direct 3 (since demo (world_of (Post 3 DrawEvent demo))) = map (\<lambda>l. (l, DrawEvent)) (keys demo)"
    "count_list (direct 3 (since demo (world_of (Post 3 DrawEvent demo)))) (3, DrawEvent) = 1"
    "count_list (seen 3 (since demo (world_of (Post 3 DrawEvent demo)))) DrawEvent = 1"
    using t c r k po demo_wf by blast+
  have b: "direct 3 (since closed (world_of (Post 3 DrawEvent closed))) =
      [(0, DrawEvent), (1, DrawEvent), (2, DrawEvent)]"
    by (simp add: since_def cl(2) closed_fields demo_fields)
  have u: "returned (Post 1 UpdateEvent (main_setup [[QUIT]]))"
    using calm_Post_notifies_each_listener_once[of "main_setup [[QUIT]]" 1 UpdateEvent] pm
    by (simp add: main_setup_heap)
  show ?thesis
    using a b c cc cl(1) u demo_wf demo_Draw(1) k po pm
    by (simp add: demo_keys main_setup_heap)
qed


section \<open>The run loop\<close>

lemma toplevel_own: "\<forall>x\<in>set xs. nested d x \<or> (\<exists>l. x = Notified d l e) \<Longrightarrow> toplevel d xs = []"
  by (induction d xs rule: toplevel.induct) auto

lemma Post_toplevel: "toplevel d (since w (world_of (Post d e w))) = [Posted d e]"
proof -
  obtain xs where "since w (world_of (Post d e w)) = Posted d e # xs"
    "\<forall>x\<in>set xs. nested d x \<or> (\<exists>l. x = Notified d l e)"
    using depth_all(1)[of w d e] by blast
  then show ?thesis by (simp add: toplevel_own)
qed

lemma Post_Ok_toplevel: "Post d e w = Ok w' \<Longrightarrow> evolves w w' \<and> toplevel d (since w w') = [Posted d e]"
  using Post_toplevel[of d w e] evolves_all(1)[of w d e] by simp

lemma and_then_Ok: "and_then r f = Ok w' \<longleftrightarrow> (\<exists>w1. r = Ok w1 \<and> f w1 = Ok w')"
  by (cases r) auto

lemma loop_body_Ok:
  "loop_body d w = Ok w' \<longleftrightarrow>
     (\<exists>w1 w2 w3. Post d UpdateEvent w = Ok w1 \<and> Post d DrawEvent w1 = Ok w2 \<and>
        Post d DrawEvent (logged (ClockTick 30) w2) = Ok w3 \<and> w' = logged (ClockTick 30) w3)"
  by (auto simp: loop_body_def and_then_Ok tick_def)

lemma loop_body_since:
  assumes "loop_body d w = Ok w'"
  obtains w1 w2 w3 where
    "Post d UpdateEvent w = Ok w1" "Post d DrawEvent w1 = Ok w2"
    "Post d DrawEvent (logged (ClockTick 30) w2) = Ok w3" "w' = logged (ClockTick 30) w3"
    "since w w' = since w w1 @ since w1 w2 @ [ClockTick 30] @
      since (logged (ClockTick 30) w2) w3 @ [ClockTick 30]"
proof -
  from assms obtain w1 w2 w3 where
    p1: "Post d UpdateEvent w = Ok w1" and p2: "Post d DrawEvent w1 = Ok w2" and
    p3: "Post d DrawEvent (logged (ClockTick 30) w2) = Ok w3" and w': "w' = logged (ClockTick 30) w3"
    by (auto simp: loop_body_Ok)
  note a = Post_Ok_toplevel[OF p1] Post_Ok_toplevel[OF p2] Post_Ok_toplevel[OF p3]
  have e2: "evolves w w2" using a by (blast intro: evolves_trans)
  have e2': "evolves w (logged (ClockTick 30) w2)"
    using e2 evolves_logged by (rule evolves_trans)
  have e3: "evolves w w3" using e2' a by (blast intro: evolves_trans)
  have "since w w' = since w w1 @ since w1 w2 @ [ClockTick 30] @
      since (logged (ClockTick 30) w2) w3 @ [ClockTick 30]"
    unfolding w' since_trans[OF e3 evolves_logged] since_trans[OF e2' conjunct1[OF a(3)]]
      since_trans[OF e2 evolves_logged] since_trans[OF conjunct1[OF a(1)] conjunct1[OF a(2)]]
    by simp
  with p1 p2 p3 w' show ?thesis by (rule that)
qed

lemma loop_body_trace:
  assumes "loop_body d w = Ok w'"
  shows "evolves w w' \<and> toplevel d (since w w') = body_trace d"
proof -
  from assms obtain w1 w2 w3 where
    p1: "Post d UpdateEvent w = Ok w1" and p2: "Post d DrawEvent w1 = Ok w2" and
    p3: "Post d DrawEvent (logged (ClockTick 30) w2) = Ok w3" and w': "w' = logged (ClockTick 30) w3"
    and s: "since w w' = since w w1 @ since w1 w2 @ [ClockTick 30] @
      since (logged (ClockTick 30) w2) w3 @ [ClockTick 30]"
    by (rule loop_body_since)
  note a = Post_Ok_toplevel[OF p1] Post_Ok_toplevel[OF p2] Post_Ok_toplevel[OF p3]
  have "evolves w w2" using a by (blast intro: evolves_trans)
  then have "evolves w (logged (ClockTick 30) w2)" using evolves_logged by (rule evolves_trans)
  then have "evolves w w3" using a by (blast intro: evolves_trans)
  then have "evolves w w'" unfolding w' using evolves_logged by (rule evolves_trans)
  then show ?thesis using a s by (simp add: body_trace_def)
qed

lemma iterations_trace:
  "iterations n d self w = Some w' \<Longrightarrow>
     evolves w w' \<and> toplevel d (since w w') = concat (replicate n (body_trace d))"
proof (induction n arbitrary: w)
  case 0
  then show ?case by simp
next
  case (Suc n)
  from Suc.prems obtain w1 where b: "loop_body d w = Ok w1" and i: "iterations n d self w1 = Some w'"
    by (auto split: if_splits outcome.splits)
  have e1: "evolves w w1" and e2: "evolves w1 w'"
    using loop_body_trace[OF b] Suc.IH[OF i] by simp_all
  from loop_body_trace[OF b] Suc.IH[OF i] since_trans[OF e1 e2] evolves_trans[OF e1 e2]
  show ?case by simp
qed

lemma iterations_run_loop:
  "iterations n d self w = Some w' \<Longrightarrow> run_loop d self w = run_loop d self w'"
proof (induction n arbitrary: w)
  case 0
  then show ?case by simp
next
  case (Suc n)
  from Suc.prems obtain w1 where r: "heap w self = Some (TickController True)"
    and b: "loop_body d w = Ok w1" and i: "iterations n d self w1 = Some w'"
    by (auto split: if_splits outcome.splits)
  have "run_loop d self w = run_loop d self w1"
    by (subst run_loop.simps) (simp add: r b)
  then show ?case using Suc.IH[OF i] by simp
qed

lemma run_loop_stopped:
  "heap w self = Some (TickController False) \<Longrightarrow> run_loop d self w = Some (Ok w)"
  by (subst run_loop.simps) simp

lemma run_loop_Ok:
  "run_loop d self w = Some r \<Longrightarrow> r = Ok w' \<Longrightarrow>
     \<exists>n. iterations n d self w = Some w' \<and> heap w' self = Some (TickController False)"
proof (induction arbitrary: w' rule: run_loop.raw_induct[rotated 1, consumes 1])
  case (1 run_loop d self w r)
  show ?case
  proof (cases "heap w self")
    case None
    then show ?thesis using 1(2,3) by simp
  next
    case (Some obj)
    show ?thesis
    proof (cases obj)
      case (TickController b)
      show ?thesis
      proof (cases b)
        case True
        show ?thesis
        proof (cases "loop_body d w")
          case (Ok w1)
          then have "run_loop d self w1 = Some r" using 1(2) Some TickController True by simp
          from 1(1)[OF this 1(3)] obtain n where
            "iterations n d self w1 = Some w'" "heap w' self = Some (TickController False)" by blast
          then have "iterations (Suc n) d self w = Some w'" using Some TickController True Ok by simp
          then show ?thesis using \<open>heap w' self = Some (TickController False)\<close> by blast
        next
          case (Raised e w1)
          then show ?thesis using 1(2,3) Some TickController True by simp
        qed
      next
        case False
        then have "w' = w" using 1(2,3) Some TickController by simp
        then have "iterations 0 d self w = Some w' \<and> heap w' self = Some (TickController False)"
          using Some TickController False by simp
        then show ?thesis by (rule exI)
      qed
    qed (use 1(2,3) Some in auto)
  qed
qed

lemma count_body_trace_cleanup:
  "count_list (concat (replicate n (body_trace d))) (Posted d QuitCleanupEvent) = 0"
  by (induction n) (auto simp: body_trace_def)

lemma Run_Ok:
  assumes "Run d self w = Some (Ok w')"
  shows "\<exists>n w1. iterations n d self w = Some w1 \<and> heap w1 self = Some (TickController False) \<and>
           Post d QuitCleanupEvent w1 = Ok w'"
proof -
  from assms obtain r where r: "run_loop d self w = Some r" and a: "and_then r (Post d QuitCleanupEvent) = Ok w'"
    by (auto simp: Run_def split: option.splits)
  from a obtain w1 where w1: "r = Ok w1" "Post d QuitCleanupEvent w1 = Ok w'"
    by (auto simp: and_then_Ok)
  from run_loop_Ok[OF r w1(1)] w1(2) show ?thesis by blast
qed

lemma Run_stops:
  assumes "iterations n d self w = Some w1" "heap w1 self = Some (TickController False)"
  shows "Run d self w = Some (Post d QuitCleanupEvent w1)"
proof -
  have "run_loop d self w = Some (Ok w1)"
    using iterations_run_loop[OF assms(1)] run_loop_stopped[OF assms(2)] by simp
  then show ?thesis by (simp add: Run_def)
qed

text \<open>
  C3. A call of \<^verbatim>\<open>Run\<close> that returns has gone through the loop some number \<open>n\<close> of
  times (possibly none), has then found \<^verbatim>\<open>self.running\<close> false, and has posted
  \<^verbatim>\<open>QuitCleanupEvent\<close> from the world the loop left: what \<^verbatim>\<open>Run\<close> itself did is
  \<open>n\<close> times Update, Draw, tick, Draw, tick and then the one cleanup broadcast, which so
  comes after the last Draw of the last pass, and \<^verbatim>\<open>Run\<close> posts it exactly once,
  whatever the handlers did and whenever the flag fell. And whenever the loop, after any
  number of passes, finds the flag false, \<^verbatim>\<open>Run\<close> is the cleanup broadcast from there.
\<close>

theorem Run_cleanup_exactly_once:
  "(Run d self w = Some (Ok w') \<longrightarrow>
      (\<exists>n w1. iterations n d self w = Some w1 \<and> heap w1 self = Some (TickController False) \<and>
          Post d QuitCleanupEvent w1 = Ok w' \<and>
          toplevel d (since w w') =
            concat (replicate n (body_trace d)) @ [Posted d QuitCleanupEvent]) \<and>
      count_list (toplevel d (since w w')) (Posted d QuitCleanupEvent) = 1) \<and>
   (iterations m d self w = Some w2 \<and> heap w2 self = Some (TickController False) \<longrightarrow>
      Run d self w = Some (Post d QuitCleanupEvent w2))"
proof -
  have "(\<exists>n w1. iterations n d self w = Some w1 \<and> heap w1 self = Some (TickController False) \<and>
          Post d QuitCleanupEvent w1 = Ok w' \<and>
          toplevel d (since w w') =
            concat (replicate n (body_trace d)) @ [Posted d QuitCleanupEvent]) \<and>
      count_list (toplevel d (since w w')) (Posted d QuitCleanupEvent) = 1"
    if R: "Run d self w = Some (Ok w')"
  proof -
    from Run_Ok[OF R] obtain n w1 where
      i: "iterations n d self w = Some w1" and h: "heap w1 self = Some (TickController False)"
      and p: "Post d QuitCleanupEvent w1 = Ok w'" by blast
    have e1: "evolves w w1" and t1: "toplevel d (since w w1) = concat (replicate n (body_trace d))"
      using iterations_trace[OF i] by simp_all
    have e2: "evolves w1 w'" and t2: "toplevel d (since w1 w') = [Posted d QuitCleanupEvent]"
      using Post_Ok_toplevel[OF p] by simp_all
    have t: "toplevel d (since w w') = concat (replicate n (body_trace d)) @ [Posted d QuitCleanupEvent]"
      using since_trans[OF e1 e2] t1 t2 by simp
    then have "count_list (toplevel d (since w w')) (Posted d QuitCleanupEvent) = 1"
      by (simp add: count_body_trace_cleanup)
    with i h p t show ?thesis by blast
  qed
  then show ?thesis using Run_stops[of m d self w w2] by blast
qed

lemma rest_of_body:
  assumes "and_then (and_then (and_then (Post d DrawEvent w1) tick) (Post d DrawEvent)) tick = Ok w2"
  shows "evolves w1 w2"
proof -
  from assms obtain a b where
    p2: "Post d DrawEvent w1 = Ok a" and
    p3: "Post d DrawEvent (logged (ClockTick 30) a) = Ok b" and w2: "w2 = logged (ClockTick 30) b"
    by (auto simp: and_then_Ok tick_def)
  note x = Post_Ok_toplevel[OF p2] Post_Ok_toplevel[OF p3]
  have "evolves w1 (logged (ClockTick 30) a)" using x(1) evolves_logged by (blast intro: evolves_trans)
  then have "evolves w1 b" using x(2) by (blast intro: evolves_trans)
  then show ?thesis unfolding w2 using evolves_logged by (rule evolves_trans)
qed

lemma evolves_stopped:
  "evolves w w' \<Longrightarrow> heap w self = Some (TickController False) \<Longrightarrow>
   heap w' self = Some (TickController False)"
  unfolding evolves_def
proof -
  assume "(\<forall>l. obj_le (heap w l) (heap w' l)) \<and> (\<exists>xs. log w' = log w @ xs)"
    and h: "heap w self = Some (TickController False)"
  then have "obj_le (heap w self) (heap w' self)" by blast
  with h show ?thesis by simp
qed

text \<open>
  C4. If the loop is entered with the flag true and the flag is false when the Update
  broadcast of that pass returns, then \<^verbatim>\<open>Run\<close> still does the rest of the pass, the
  Draw broadcast, the tick, the second Draw broadcast and the second tick, and only then
  leaves the loop and posts the cleanup event: \<^verbatim>\<open>Run\<close> is that sequence of calls, and
  when it returns its own trace is one full pass followed by the cleanup broadcast.
\<close>

theorem Quit_during_Update_finishes_tick:
  assumes "heap w self = Some (TickController True)"
    and "Post d UpdateEvent w = Ok w1"
    and "heap w1 self = Some (TickController False)"
  shows "Run d self w =
           Some (and_then (and_then (and_then (and_then (Post d DrawEvent w1) tick)
                   (Post d DrawEvent)) tick) (Post d QuitCleanupEvent)) \<and>
         (\<forall>w'. Run d self w = Some (Ok w') \<longrightarrow>
            toplevel d (since w w') = body_trace d @ [Posted d QuitCleanupEvent])"
proof -
  let ?r = "and_then (and_then (and_then (Post d DrawEvent w1) tick) (Post d DrawEvent)) tick"
  have lb: "loop_body d w = ?r" by (simp add: loop_body_def assms(2))
  have run: "Run d self w = Some (and_then ?r (Post d QuitCleanupEvent))"
  proof (cases ?r)
    case (Ok w2)
    have "heap w2 self = Some (TickController False)"
      using rest_of_body[OF Ok] assms(3) by (rule evolves_stopped)
    then have "run_loop d self w2 = Some (Ok w2)" by (rule run_loop_stopped)
    moreover have "run_loop d self w = run_loop d self w2"
      by (subst run_loop.simps) (simp add: assms(1) lb Ok)
    ultimately show ?thesis by (simp add: Run_def Ok)
  next
    case (Raised e w2)
    have "run_loop d self w = Some (Raised e w2)"
      by (subst run_loop.simps) (simp add: assms(1) lb Raised)
    then show ?thesis by (simp add: Run_def Raised)
  qed
  have "toplevel d (since w w') = body_trace d @ [Posted d QuitCleanupEvent]"
    if R: "Run d self w = Some (Ok w')" for w'
  proof -
    from R run obtain w2 where w2: "?r = Ok w2" "Post d QuitCleanupEvent w2 = Ok w'"
      by (auto simp: and_then_Ok)
    have b: "loop_body d w = Ok w2" using lb w2(1) by simp
    have e1: "evolves w w2" and t1: "toplevel d (since w w2) = body_trace d"
      using loop_body_trace[OF b] by simp_all
    have e2: "evolves w2 w'" and t2: "toplevel d (since w2 w') = [Posted d QuitCleanupEvent]"
      using Post_Ok_toplevel[OF w2(2)] by simp_all
    show ?thesis using since_trans[OF e1 e2] t1 t2 by simp
  qed
  with run show ?thesis by blast
qed

section \<open>What a listener sees of the loop\<close>

lemma loop_body_seen:
  assumes S: "QuitEvent \<in> S" "UpdateEvent \<notin> S" "DrawEvent \<notin> S"
    and w: "posts_only S w" "wf_dict w" "L \<in> set (keys w)"
    and b: "loop_body d w = Ok w'"
  shows "count_list (seen L (since w w')) UpdateEvent = 1"
    "count_list (seen L (since w w')) DrawEvent = 2"
    "posts_only S w'" "wf_dict w'" "keys w' = keys w"
proof -
  from b obtain w1 w2 w3 where
    p1: "Post d UpdateEvent w = Ok w1" and p2: "Post d DrawEvent w1 = Ok w2" and
    p3: "Post d DrawEvent (logged (ClockTick 30) w2) = Ok w3" and w': "w' = logged (ClockTick 30) w3"
    and s: "since w w' = since w w1 @ since w1 w2 @ [ClockTick 30] @
      since (logged (ClockTick 30) w2) w3 @ [ClockTick 30]"
    by (rule loop_body_since)
  note a1 = Post_seen[OF S(1) w(1,2) _ p1 w(3)]
  have L1: "L \<in> set (keys w1)" using a1(4)[OF S(2)] w(3) by simp
  note a2 = Post_seen[OF S(1) a1(2,3)[OF S(2)] _ p2 L1]
  let ?w2 = "logged (ClockTick 30) w2"
  have k2: "keys w2 = keys w" using a2(4)[OF S(2)] a1(4)[OF S(2)] by simp
  have po2: "posts_only S ?w2" and wf2: "wf_dict ?w2" and L2: "L \<in> set (keys ?w2)"
    using a2(2,3)[OF S(2)] k2 w(3) by simp_all
  note a3 = Post_seen[OF S(1) po2 wf2 _ p3 L2]
  show "count_list (seen L (since w w')) UpdateEvent = 1"
    unfolding s using a1(1)[OF S(2)] a2(1)[OF S(2)] a3(1)[OF S(2)] by simp
  show "count_list (seen L (since w w')) DrawEvent = 2"
    unfolding s using a1(1)[OF S(3)] a2(1)[OF S(3)] a3(1)[OF S(3)] by simp
  show "posts_only S w'" unfolding w' using a3(2)[OF S(2)] by simp
  show "wf_dict w'" unfolding w' using a3(3)[OF S(2)] by simp
  show "keys w' = keys w" unfolding w' using a3(4)[OF S(2)] k2 by simp
qed

lemma iterations_seen:
  assumes S: "QuitEvent \<in> S" "UpdateEvent \<notin> S" "DrawEvent \<notin> S"
  shows "posts_only S w \<Longrightarrow> wf_dict w \<Longrightarrow> L \<in> set (keys w) \<Longrightarrow> iterations n d self w = Some w' \<Longrightarrow>
    count_list (seen L (since w w')) UpdateEvent = n \<and>
    count_list (seen L (since w w')) DrawEvent = 2 * n"
proof (induction n arbitrary: w)
  case 0
  then show ?case by simp
next
  case (Suc n)
  from Suc.prems(4) obtain w1 where b: "loop_body d w = Ok w1" and i: "iterations n d self w1 = Some w'"
    by (auto split: if_splits outcome.splits)
  note a = loop_body_seen[OF S Suc.prems(1,2,3) b]
  have L1: "L \<in> set (keys w1)" using a(5) Suc.prems(3) by simp
  have e1: "evolves w w1" using loop_body_trace[OF b] by simp
  have e2: "evolves w1 w'" using iterations_trace[OF i] by simp
  show ?case using Suc.IH[OF a(3,4) L1 i] a(1,2) since_trans[OF e1 e2] by simp
qed

text \<open>
  C2. When the loop completes \<open>n\<close> passes, what it does itself is \<open>n\<close> times: post
  Update, post Draw, tick the clock, post Draw, tick the clock. Where the handlers do
  nothing on the bus but post events other than Update and Draw, a listener that is
  registered and alive is notified of Update \<open>n\<close> times and of Draw \<open>2 * n\<close> times in
  all.
\<close>

theorem loop_cadence:
  assumes "iterations n d self w = Some w'"
  shows "toplevel d (since w w') = concat (replicate n (body_trace d)) \<and>
         (QuitEvent \<in> S \<and> UpdateEvent \<notin> S \<and> DrawEvent \<notin> S \<and> posts_only S w \<and> wf_dict w \<and>
            L \<in> set (keys w) \<longrightarrow>
          count_list (seen L (since w w')) UpdateEvent = n \<and>
          count_list (seen L (since w w')) DrawEvent = 2 * n)"
  using iterations_trace[OF assms] iterations_seen[OF _ _ _ _ _ _ assms] by blast

theorem loop_cadence_witness:
  "iterations 5 3 1 five \<noteq> None \<and>
   toplevel 3 (since five (the (iterations 5 3 1 five))) = concat (replicate 5 (body_trace 3)) \<and>
   count_list (seen 3 (since five (the (iterations 5 3 1 five)))) UpdateEvent = 5 \<and>
   count_list (seen 3 (since five (the (iterations 5 3 1 five)))) DrawEvent = 10"
proof -
  have i: "iterations 5 3 1 five = Some (the (iterations 5 3 1 five))"
    using five_iterations by auto
  have po: "posts_only {Event, QuitEvent} five"
    by (auto simp: posts_only_def five_fields echo_def split: if_splits)
  have wf: "wf_dict five" by (simp add: wf_dict_def five_fields)
  have k: "3 \<in> set (keys five)" by (simp add: keys_def five_fields)
  show ?thesis
    using loop_cadence[OF i, of "{Event, QuitEvent}" 3] po wf k five_iterations by simp
qed

theorem Run_cleanup_exactly_once_witness:
  "Run 3 1 quitting = Some (Ok (world_of (the (Run 3 1 quitting)))) \<and>
   (\<exists>n. toplevel 3 (since quitting (world_of (the (Run 3 1 quitting)))) =
          concat (replicate n (body_trace 3)) @ [Posted 3 QuitCleanupEvent]) \<and>
   count_list (toplevel 3 (since quitting (world_of (the (Run 3 1 quitting)))))
     (Posted 3 QuitCleanupEvent) = 1 \<and>
   iterations 1 3 1 quitting = Some (the (iterations 1 3 1 quitting)) \<and>
   heap (the (iterations 1 3 1 quitting)) 1 = Some (TickController False) \<and>
   Run 3 1 quitting = Some (Post 3 QuitCleanupEvent (the (iterations 1 3 1 quitting)))"
proof -
  have r: "Run 3 1 quitting = Some (Ok (world_of (the (Run 3 1 quitting))))"
    using quitting_run by (rule returned_Some)
  have i: "iterations 1 3 1 quitting = Some (the (iterations 1 3 1 quitting))"
    using quitting_iteration(1) by auto
  note t = Run_cleanup_exactly_once[of 3 1 quitting "world_of (the (Run 3 1 quitting))" 1
      "the (iterations 1 3 1 quitting)"]
  show ?thesis using t r i quitting_iteration(2) by blast
qed

theorem Quit_during_Update_finishes_tick_witness:
  "heap quitting 1 = Some (TickController True) \<and>
   returned (Post 3 UpdateEvent quitting) \<and>
   heap (world_of (Post 3 UpdateEvent quitting)) 1 = Some (TickController False) \<and>
   Run 3 1 quitting = Some (Ok (world_of (the (Run 3 1 quitting)))) \<and>
   toplevel 3 (since quitting (world_of (the (Run 3 1 quitting)))) =
     [Posted 3 UpdateEvent, Posted 3 DrawEvent, ClockTick 30, Posted 3 DrawEvent, ClockTick 30,
      Posted 3 QuitCleanupEvent]"
proof -
  have h: "heap quitting 1 = Some (TickController True)" by (simp add: quitting_fields)
  have p: "Post 3 UpdateEvent quitting = Ok (world_of (Post 3 UpdateEvent quitting))"
    using quitting_Update(1) by (rule returned_Ok)
  have r: "Run 3 1 quitting = Some (Ok (world_of (the (Run 3 1 quitting))))"
    using quitting_run by (rule returned_Some)
  show ?thesis
    using Quit_during_Update_finishes_tick[OF h p quitting_Update(2)] h quitting_Update r
    by (simp add: body_trace_def)
qed

section \<open>The broadcast walks the live registry\<close>

lemma for_keys_used:
  "for_keys d e it w = Ok w' \<Longrightarrow> used (data w') = di_used it"
proof (induct d e it w rule: for_keys_induct)
  case (step d event it w)
  show ?case
  proof (cases rule: for_keys_cases[of w it d event])
    case (dead i l n)
    then show ?thesis using step(1)[OF dead(1,2) refl dead(3,4)] step(3) by simp
  next
    case (live_ok i l n obj w1)
    then show ?thesis using step(2)[OF live_ok(1,2) refl live_ok(3,4,5)] step(3) by simp
  qed (use step(3) in auto)
qed

lemma Post_used:
  assumes "Post d e w = Ok w'"
  shows "\<exists>w1. for_keys d e (dictiter_new (data w)) (logged (Posted d e) w) = Ok w1 \<and>
           used (data w1) = used (data w) \<and> w' = commit_removals w1"
    "pins w = [] \<Longrightarrow> entry_keys (data w') = keys w'"
proof -
  obtain w1 where r: "for_keys d e (dictiter_new (data w)) (logged (Posted d e) w) = Ok w1"
    and w': "w' = commit_removals w1"
    using assms unfolding Post.simps by (auto simp: leave_Ok)
  have "used (data w1) = used (data w)" using for_keys_used[OF r] by (simp add: dictiter_new_def)
  then show "\<exists>w1. for_keys d e (dictiter_new (data w)) (logged (Posted d e) w) = Ok w1 \<and>
           used (data w1) = used (data w) \<and> w' = commit_removals w1"
    using r w' by blast
  have p: "pins w1 = pins w" using pins_all(2)[OF r] by simp
  show "entry_keys (data w') = keys w'" if "pins w = []"
    using that p unfolding w' by (simp add: entry_keys_commit_removals)
qed

lemma for_keys_size_changed:
  assumes "used (data w) = di_used it" "next_entry (data w) (di_pos it) = Some (i, l)"
    "len it = Suc n" "heap w l = Some obj"
    "Notify d l e (pin l w) = Ok w1" "used (data w1) \<noteq> used (data w)"
  shows "for_keys d e it w = Raised RuntimeError (commit_removals (unpin l w1))"
proof -
  have "for_keys d e it w =
      for_keys d e \<lparr>di_used = di_used it, di_pos = Suc i, len = n\<rparr> (unpin l w1)"
    using assms(1-5) by (simp add: for_keys.simps)
  also have "\<dots> = Raised RuntimeError (commit_removals (unpin l w1))"
    using assms(1,6) by (simp add: for_keys.simps)
  finally show ?thesis .
qed

lemma Post_calm_data:
  assumes "calm (since w (world_of (Post d e w)))"
  shows "data (world_of (Post d e w)) =
     (if returned (Post d e w) then data (commit_removals w) else data w)"
proof (cases "Post d e w")
  case (Ok w')
  from Post_calm(4)[OF assms Ok] obtain w1 where
    w1: "data w1 = data w" "\<forall>k. (heap w1 k = None) = (heap w k = None)" "pins w1 = pins w"
      "w' = commit_removals w1" by blast
  have "data (commit_removals w1) = data (commit_removals w)"
    using w1(1,2,3) by (simp add: commit_removals_def)
  then show ?thesis using Ok w1(4) by simp
next
  case (Raised x w')
  let ?w0 = "logged (Posted d e) w"
  let ?r = "for_keys d e (dictiter_new (data w)) ?w0"
  have "since w (world_of ?r) = [Posted d e] @ since ?w0 (world_of ?r)"
    using since_step(2)[OF evolves_logged] by simp
  then have c: "calm (since ?w0 (world_of ?r))" using assms by (simp add: Post.simps)
  have "?r = Raised x w'" using Raised unfolding Post.simps by (cases ?r) auto
  then show ?thesis using calm_all(2)[OF c consistent_new] Raised by simp
qed

text \<open>
  C5, as the code has it. \<^verbatim>\<open>Post\<close> takes no snapshot: it walks the dictionary itself.

  Of a broadcast during which no handler registers, unregisters or releases a listener:
  the listeners registered and alive are the same after it, and so are the objects
  alive; the table is the same, but for the entries of listeners that were dead before it
  began, which leave the table when a broadcast that is not nested in another returns;
  the iterator of the dictionary does not raise its \<^verbatim>\<open>RuntimeError\<close> (an exception of
  a handler is passed on, and it may be a \<^verbatim>\<open>RecursionError\<close> or a \<^verbatim>\<open>pygame.error\<close>,
  which are instances of \<^verbatim>\<open>RuntimeError\<close> too); and when the broadcast returns it has
  notified the listeners registered and alive at its start, each once, in the order of
  the registry.

  Of any broadcast that returns: its loop has ended with as many entries in the
  dictionary as there were when it began, and when it is not nested in another
  broadcast no entry of a dead listener is left in the registry, so that a listener
  reclaimed during it is gone from the registry without an error.

  And when the handler of the listener at hand returns with the number of entries
  changed, because it has registered a new listener or unregistered one, the loop raises
  \<^verbatim>\<open>RuntimeError\<close> at once, in the world that handler left: the listeners not yet
  reached are skipped.
\<close>

theorem Post_takes_no_snapshot:
  "(calm (since w (world_of (Post d e w))) \<longrightarrow>
      keys (world_of (Post d e w)) = keys w \<and>
      (\<forall>k. (heap (world_of (Post d e w)) k = None) = (heap w k = None)) \<and>
      data (world_of (Post d e w)) =
        (if returned (Post d e w) then data (commit_removals w) else data w) \<and>
      raised (Post d e w) \<noteq> Some RuntimeError \<and>
      (\<forall>w'. Post d e w = Ok w' \<longrightarrow> direct d (since w w') = map (\<lambda>l. (l, e)) (keys w))) \<and>
   (\<forall>w'. Post d e w = Ok w' \<longrightarrow>
      (\<exists>w1. for_keys d e (dictiter_new (data w)) (logged (Posted d e) w) = Ok w1 \<and>
            used (data w1) = used (data w) \<and> w' = commit_removals w1) \<and>
      (pins w = [] \<longrightarrow> entry_keys (data w') = keys w')) \<and>
   (\<forall>it i l n obj w1.
      used (data w) = di_used it \<and> next_entry (data w) (di_pos it) = Some (i, l) \<and>
      len it = Suc n \<and> heap w l = Some obj \<and>
      Notify d l e (pin l w) = Ok w1 \<and> used (data w1) \<noteq> used (data w) \<longrightarrow>
      for_keys d e it w = Raised RuntimeError (commit_removals (unpin l w1)))"
proof -
  have a: "keys (world_of (Post d e w)) = keys w \<and>
      (\<forall>k. (heap (world_of (Post d e w)) k = None) = (heap w k = None)) \<and>
      data (world_of (Post d e w)) =
        (if returned (Post d e w) then data (commit_removals w) else data w) \<and>
      raised (Post d e w) \<noteq> Some RuntimeError \<and>
      (\<forall>w'. Post d e w = Ok w' \<longrightarrow> direct d (since w w') = map (\<lambda>l. (l, e)) (keys w))"
    if cm: "calm (since w (world_of (Post d e w)))"
  proof -
    have "direct d (since w w') = map (\<lambda>l. (l, e)) (keys w)" if P: "Post d e w = Ok w'" for w'
      using Post_direct_calm[OF _ P] cm P by simp
    then show ?thesis
      using Post_calm(1,2)[OF cm] Post_calm_data[OF cm] by (simp add: same_registry_def)
  qed
  have b: "(\<exists>w1. for_keys d e (dictiter_new (data w)) (logged (Posted d e) w) = Ok w1 \<and>
            used (data w1) = used (data w) \<and> w' = commit_removals w1) \<and>
      (pins w = [] \<longrightarrow> entry_keys (data w') = keys w')"
    if P: "Post d e w = Ok w'" for w'
    using Post_used[OF P] by blast
  have c: "for_keys d e it w = Raised RuntimeError (commit_removals (unpin l w1))"
    if "used (data w) = di_used it \<and> next_entry (data w) (di_pos it) = Some (i, l) \<and>
      len it = Suc n \<and> heap w l = Some obj \<and>
      Notify d l e (pin l w) = Ok w1 \<and> used (data w1) \<noteq> used (data w)" for it i l n obj w1
    using for_keys_size_changed[of w it i l n obj d e w1] that by blast
  show ?thesis using a b c by blast
qed

theorem Post_takes_no_snapshot_witness:
  "calm (since demo (world_of (Post 3 DrawEvent demo))) \<and> returned (Post 3 DrawEvent demo) \<and>
   keys (world_of (Post 3 DrawEvent demo)) = [0, 1, 2, 3] \<and>
   data (world_of (Post 3 DrawEvent demo)) = data demo \<and>
   direct 3 (since demo (world_of (Post 3 DrawEvent demo))) =
     [(0, DrawEvent), (1, DrawEvent), (2, DrawEvent), (3, DrawEvent)] \<and>
   heap growing 0 = Some (Script 0 spawner) \<and>
   used (data growing) = 2 \<and>
   used (data (world_of (Notify 3 0 DrawEvent (pin 0 growing)))) = 3 \<and>
   for_keys 3 DrawEvent (dictiter_new (data growing)) growing =
     Raised RuntimeError
       (commit_removals (unpin 0 (world_of (Notify 3 0 DrawEvent (pin 0 growing))))) \<and>
   1 \<in> set (keys releasing) \<and> pins releasing = [] \<and> used (data releasing) = 2 \<and>
   returned (Post 3 DrawEvent releasing) \<and>
   seen 1 (since releasing (world_of (Post 3 DrawEvent releasing))) = [] \<and>
   keys (world_of (Post 3 DrawEvent releasing)) = [0] \<and>
   entry_keys (data (world_of (Post 3 DrawEvent releasing))) = [0]"
proof -
  let ?n = "Notify 3 0 DrawEvent (pin 0 growing)"
  let ?p = "Post 3 DrawEvent releasing"
  have r: "Post 3 DrawEvent demo = Ok (world_of (Post 3 DrawEvent demo))"
    using demo_Draw(1) by (rule returned_Ok)
  have c: "calm (since demo (world_of (Post 3 DrawEvent demo)))"
    by (simp add: since_def demo_Draw(2) demo_fields)
  have cd: "data (commit_removals demo) = data demo"
    by (simp add: commit_removals_def demo_fields)
  have n: "?n = Ok (world_of ?n)" "used (data (world_of ?n)) = 3"
    by (simp_all add: growing_def three_fields run_simps spawner_def RegisterListener_def)
  have g: "used (data growing) = di_used (dictiter_new (data growing))"
    "next_entry (data growing) (di_pos (dictiter_new (data growing))) = Some (0, 0)"
    "len (dictiter_new (data growing)) = Suc 1" "heap growing 0 = Some (Script 0 spawner)"
    "used (data (world_of ?n)) \<noteq> used (data growing)" "used (data growing) = 2"
    using n(2) by (simp_all add: growing_def three_fields dictiter_new_def used_def next_entry_def)
  have rl: "returned ?p" "keys (world_of ?p) = [0]" "seen 1 (since releasing (world_of ?p)) = []"
    "pins releasing = []" "1 \<in> set (keys releasing)" "used (data releasing) = 2"
    by (simp_all add: releasing_def three_keys three_fields run_simps releaser_def silent_def
        keys_def since_def)
  have rp: "?p = Ok (world_of ?p)" using rl(1) by (rule returned_Ok)
  from Post_takes_no_snapshot[of demo 3 DrawEvent]
  have a: "keys (world_of (Post 3 DrawEvent demo)) = keys demo"
    "data (world_of (Post 3 DrawEvent demo)) = data demo"
    "direct 3 (since demo (world_of (Post 3 DrawEvent demo))) = map (\<lambda>l. (l, DrawEvent)) (keys demo)"
    using c r cd demo_Draw(1) by auto
  from Post_takes_no_snapshot[of growing 3 DrawEvent]
  have b: "for_keys 3 DrawEvent (dictiter_new (data growing)) growing =
      Raised RuntimeError (commit_removals (unpin 0 (world_of ?n)))"
    using g(1-5) n(1) by blast
  from Post_takes_no_snapshot[of releasing 3 DrawEvent]
  have "entry_keys (data (world_of ?p)) = keys (world_of ?p)"
    using rp rl(4) by blast
  then have d: "entry_keys (data (world_of ?p)) = [0]" using rl(2) by simp
  show ?thesis
    using a b c d demo_Draw(1) g(4,6) n(2) rl
    by (simp add: demo_keys)
qed

text \<open>
  C5 as stated fails. Listener 1 is registered and alive when the broadcast starts; the
  handler of listener 0 registers a new listener (in \<open>growing\<close>) or unregisters
  listener 1 (in \<open>shrinking\<close>); the broadcast raises \<^verbatim>\<open>RuntimeError\<close> and listener 1
  is never notified.
\<close>

theorem Post_snapshot_counterexample:
  "1 \<in> set (keys growing) \<and> raised (Post 3 DrawEvent growing) = Some RuntimeError \<and>
   seen 1 (since growing (world_of (Post 3 DrawEvent growing))) = [] \<and>
   1 \<in> set (keys shrinking) \<and> raised (Post 3 DrawEvent shrinking) = Some RuntimeError \<and>
   seen 1 (since shrinking (world_of (Post 3 DrawEvent shrinking))) = []"
  by (simp add: growing_def shrinking_def three_keys three_fields run_simps spawner_def remover_def
      silent_def RegisterListener_def UnregisterListener_def keys_def since_def)


section \<open>Registering and unregistering\<close>

lemma wf_dict_Register: "wf_dict w \<Longrightarrow> wf_dict (RegisterListener l w)"
  by (simp add: wf_dict_def RegisterListener_def entry_keys_setitem)

lemma wf_dict_Unregister: "wf_dict w \<Longrightarrow> wf_dict (UnregisterListener l w)"
  by (simp add: wf_dict_def UnregisterListener_def entry_keys_delitem)

lemma Register_twice: "RegisterListener L (RegisterListener L w) = RegisterListener L w"
  by (simp add: RegisterListener_def setitem_setitem)

lemma Register_present:
  "L \<in> set (entry_keys (data w)) \<Longrightarrow> entry_keys (data (RegisterListener L w)) = entry_keys (data w)"
  by (simp add: RegisterListener_def entry_keys_setitem)

lemma Register_member: "L \<in> set (entry_keys (data (RegisterListener L w)))"
  by (simp add: RegisterListener_def entry_keys_setitem)

text \<open>
  C6. Registering a listener twice is registering it once. Registering a listener that is
  already in the registry leaves the keys, their order and their number as they were. And
  a broadcast after a double registration, when it returns, has notified the listener
  once.
\<close>

theorem RegisterListener_idempotent:
  "RegisterListener L (RegisterListener L w) = RegisterListener L w \<and>
   (L \<in> set (entry_keys (data w)) \<longrightarrow>
      entry_keys (data (RegisterListener L w)) = entry_keys (data w) \<and>
      keys (RegisterListener L w) = keys w \<and> used (data (RegisterListener L w)) = used (data w)) \<and>
   (posts_only UNIV w \<and> wf_dict w \<and> heap w L \<noteq> None \<and>
    Post d e (RegisterListener L (RegisterListener L w)) = Ok w' \<longrightarrow>
      count_list (direct d (since (RegisterListener L (RegisterListener L w)) w')) (L, e) = 1)"
proof -
  let ?w = "RegisterListener L (RegisterListener L w)"
  have a: "?w = RegisterListener L w" by (rule Register_twice)
  have b: "entry_keys (data (RegisterListener L w)) = entry_keys (data w) \<and>
      keys (RegisterListener L w) = keys w \<and> used (data (RegisterListener L w)) = used (data w)"
    if "L \<in> set (entry_keys (data w))"
    using Register_present[OF that] by (simp add: keys_def used_def)
  have c: "count_list (direct d (since ?w w')) (L, e) = 1"
    if h: "posts_only UNIV w" "wf_dict w" "heap w L \<noteq> None" "Post d e ?w = Ok w'"
  proof -
    have po: "posts_only UNIV ?w" using h(1) by (simp add: posts_only_heap[of ?w w])
    have wf: "wf_dict ?w" using h(2) by (simp add: wf_dict_Register)
    have k: "L \<in> set (keys ?w)" using h(3) Register_member[of L "RegisterListener L w"]
      by (simp add: keys_def)
    have "direct d (since ?w w') = map (\<lambda>l. (l, e)) (keys ?w)"
      using Post_direct[OF _ po h(4)] by simp
    then show ?thesis
      using distinct_count_list[OF distinct_keys[OF wf] k] by (simp add: count_list_map_pair)
  qed
  show ?thesis using a b c by blast
qed

theorem RegisterListener_idempotent_witness:
  "RegisterListener 3 (RegisterListener 3 demo) = RegisterListener 3 demo \<and>
   3 \<in> set (entry_keys (data demo)) \<and> keys (RegisterListener 3 demo) = [0, 1, 2, 3] \<and>
   posts_only UNIV demo \<and> wf_dict demo \<and> heap demo 3 \<noteq> None \<and>
   returned (Post 3 DrawEvent (RegisterListener 3 (RegisterListener 3 demo))) \<and>
   count_list (direct 3 (since (RegisterListener 3 (RegisterListener 3 demo))
     (world_of (Post 3 DrawEvent (RegisterListener 3 (RegisterListener 3 demo)))))) (3, DrawEvent) = 1"
proof -
  let ?w = "RegisterListener 3 (RegisterListener 3 demo)"
  have e: "?w = demo" by (simp add: RegisterListener_def demo_fields)
  have r: "Post 3 DrawEvent ?w = Ok (world_of (Post 3 DrawEvent ?w))"
    unfolding e using demo_Draw(1) by (rule returned_Ok)
  have m: "3 \<in> set (entry_keys (data demo))" "heap demo 3 \<noteq> None" by (simp_all add: demo_fields)
  show ?thesis
    using RegisterListener_idempotent[of 3 demo 3 DrawEvent "world_of (Post 3 DrawEvent ?w)"]
      r m demo_posts_only demo_wf demo_keys demo_Draw(1) e
    by simp
qed

lemma Unregister_absent: "L \<notin> set (keys w) \<Longrightarrow> UnregisterListener L w = w"
  by (simp add: UnregisterListener_def)

lemma Unregister_gone: "wf_dict w \<Longrightarrow> L \<notin> set (keys (UnregisterListener L w))"
  by (auto simp: UnregisterListener_def keys_def wf_dict_def entry_keys_delitem)

lemma commit_empty:
  "entry_keys es = [] \<Longrightarrow>
   map (\<lambda>en. case en of None \<Rightarrow> None
       | Some (k, v) \<Rightarrow> if h k = None then None else Some (k, v)) es = es"
  by (induction es rule: entry_keys.induct) auto

lemma Post_empty: "entry_keys (data w) = [] \<Longrightarrow> Post d e w = Ok (logged (Posted d e) w)"
proof -
  assume e: "entry_keys (data w) = []"
  have "entry_keys (drop 0 (data w)) = []" using e by simp
  have "next_entry (data w) 0 = None"
  proof (cases "next_entry (data w) 0")
    case (Some p)
    then show ?thesis using next_entry_Some[of "data w" 0 "fst p" "snd p"] e by simp
  qed simp
  moreover have "commit_removals (logged (Posted d e) w) = logged (Posted d e) w"
    using e by (simp add: commit_removals_def commit_empty)
  ultimately show ?thesis by (simp add: Post.simps for_keys.simps dictiter_new_def)
qed

text \<open>
  C7. \<^verbatim>\<open>UnregisterListener\<close> and \<^verbatim>\<open>RegisterListener\<close> always return a world, never an
  error. Unregistering a listener that is not in the registry changes nothing. After
  \<^verbatim>\<open>UnregisterListener(L)\<close> the listener is not in the registry, and a broadcast on a
  registry without \<open>L\<close>, in which no handler registers anything, never notifies \<open>L\<close>,
  however it ends, and leaves the registry as it is, so that this holds of the next
  broadcast too. A broadcast on an empty registry returns, having done nothing but
  being called.
\<close>

theorem UnregisterListener_total:
  "(L \<notin> set (keys w) \<longrightarrow> UnregisterListener L w = w) \<and>
   (wf_dict w \<longrightarrow> L \<notin> set (keys (UnregisterListener L w))) \<and>
   (posts_only UNIV w \<and> L \<notin> set (keys w) \<longrightarrow>
      seen L (since w (world_of (Post d e w))) = [] \<and> keys (world_of (Post d e w)) = keys w) \<and>
   (entry_keys (data w) = [] \<longrightarrow> Post d e w = Ok (logged (Posted d e) w))"
  using Unregister_absent[of L w] Unregister_gone[of w L] Post_unregistered[of w L d e]
    Post_empty[of w d e]
  by blast

theorem UnregisterListener_total_witness:
  "2 \<notin> set (keys (three silent)) \<and> UnregisterListener 2 (three silent) = three silent \<and>
   wf_dict (three silent) \<and> 1 \<in> set (keys (three silent)) \<and>
   1 \<notin> set (keys (UnregisterListener 1 (three silent))) \<and>
   posts_only UNIV (UnregisterListener 1 (three silent)) \<and>
   seen 1 (since (UnregisterListener 1 (three silent))
     (world_of (Post 3 DrawEvent (UnregisterListener 1 (three silent))))) = [] \<and>
   entry_keys (data (UnregisterListener 0 (UnregisterListener 1 (three silent)))) = [] \<and>
   returned (Post 3 DrawEvent (UnregisterListener 0 (UnregisterListener 1 (three silent))))"
proof -
  let ?w1 = "UnregisterListener 1 (three silent)"
  let ?w0 = "UnregisterListener 0 ?w1"
  have a: "2 \<notin> set (keys (three silent))" "1 \<in> set (keys (three silent))"
    by (simp_all add: three_keys)
  have wf: "wf_dict (three silent)" by (simp add: wf_dict_def three_fields)
  have po: "posts_only UNIV ?w1"
    by (auto simp: posts_only_def three_fields silent_def split: if_splits)
  have k1: "1 \<notin> set (keys ?w1)"
    using UnregisterListener_total[of 1 "three silent" 3 DrawEvent] wf by blast
  have e: "entry_keys (data ?w0) = []"
    by (simp add: UnregisterListener_def keys_def three_fields)
  show ?thesis
    using UnregisterListener_total[of 2 "three silent" 3 DrawEvent]
      UnregisterListener_total[of 1 ?w1 3 DrawEvent]
      UnregisterListener_total[of 0 ?w0 3 DrawEvent] a wf po k1 e
    by simp
qed

section \<open>The running flag\<close>

lemma quit_only_refl [simp]: "quit_only tc w w"
  by (simp add: quit_only_def)

lemma quit_only_same_heap: "heap w' = heap w \<Longrightarrow> quit_only tc w w'"
  by (auto simp: quit_only_def)

lemma evolves_tick:
  "evolves w w' \<Longrightarrow> heap w tc = Some (TickController b) \<Longrightarrow>
   heap w' tc = Some (TickController b) \<or> heap w' tc = Some (TickController False)"
proof -
  assume "evolves w w'" and h: "heap w tc = Some (TickController b)"
  then have "obj_le (heap w tc) (heap w' tc)" unfolding evolves_def by blast
  with h show ?thesis by simp
qed

lemma quit_only_trans:
  assumes "evolves w w1" "evolves w1 w2" "quit_only tc w w1" "quit_only tc w1 w2"
  shows "quit_only tc w w2"
  unfolding quit_only_def
proof
  assume a: "heap w tc = Some (TickController True) \<and> heap w2 tc = Some (TickController False)"
  have s: "since w w2 = since w w1 @ since w1 w2" using assms(1,2) by (rule since_trans)
  from evolves_tick[OF assms(1) conjunct1[OF a]]
  show "\<exists>d'. Notified d' tc QuitEvent \<in> set (since w w2)"
  proof
    assume "heap w1 tc = Some (TickController True)"
    then show ?thesis using assms(4) a s by (auto simp: quit_only_def)
  next
    assume "heap w1 tc = Some (TickController False)"
    then show ?thesis using assms(3) a s by (auto simp: quit_only_def)
  qed
qed

lemma unpin_tick: "heap w tc = Some (TickController b) \<Longrightarrow> heap (unpin l w) tc = Some (TickController b)"
  by (auto simp: unpin_def split: option.splits listener.splits)

lemma let_go_tick: "heap w tc = Some (TickController b) \<Longrightarrow> heap (let_go l w) tc = Some (TickController b)"
  by (auto simp: let_go_def reclaim_def split: option.splits listener.splits)

lemma quit_only_pass:
  assumes "quit_only tc (pin l w) w1"
  shows "quit_only tc w (unpin l w1)"
  unfolding quit_only_def
proof
  assume a: "heap w tc = Some (TickController True) \<and> heap (unpin l w1) tc = Some (TickController False)"
  have "heap w1 tc = Some (TickController False)"
  proof (cases "heap w1 tc")
    case None
    then show ?thesis using a by (auto simp: unpin_def split: option.splits listener.splits if_splits)
  next
    case (Some obj)
    then show ?thesis using a
      by (cases obj) (auto simp: unpin_def split: option.splits listener.splits if_splits)
  qed
  then show "\<exists>d'. Notified d' tc QuitEvent \<in> set (since w (unpin l w1))"
    using assms a by (simp add: quit_only_def)
qed

lemma quit_only_all:
  "quit_only tc w (world_of (Post d e w))"
  "quit_only tc w (world_of (for_keys d e it w))"
  "quit_only tc w (world_of (Notify d l e w))"
  "quit_only tc w (world_of (perform d as w))"
proof (induct d e w and d e it w and d l e w and d as w rule: Post_for_keys_Notify_perform.induct)
  case (1 d event w)
  let ?w0 = "logged (Posted d event) w"
  have "quit_only tc w ?w0" by (rule quit_only_same_heap) simp
  from quit_only_trans[OF evolves_logged evolves_all(2) this 1]
  show ?case by (simp add: Post.simps quit_only_def)
next
  case (2 d event it w)
  show ?case
  proof (cases rule: for_keys_cases[of w it d event])
    case (dead i l n)
    then show ?thesis using 2(1)[OF _ dead(2) refl dead(3,4)] by simp
  next
    case (live_ok i l n obj w1)
    let ?it = "\<lparr>di_used = di_used it, di_pos = Suc i, len = n\<rparr>"
    have "quit_only tc (pin l w) w1"
      using 2(2)[OF _ live_ok(2) refl live_ok(3,4)] live_ok(1,5) by simp
    then have q1: "quit_only tc w (unpin l w1)" by (rule quit_only_pass)
    have q2: "quit_only tc (unpin l w1) (world_of (for_keys d event ?it (unpin l w1)))"
      using 2(3)[OF _ live_ok(2) refl live_ok(3,4,5)] live_ok(1) by simp
    from quit_only_trans[OF since_pass(2)[OF live_ok(5)] evolves_all(2) q1 q2]
    show ?thesis by (simp add: live_ok(6))
  next
    case (live_raised i l n obj x w1)
    have "quit_only tc (pin l w) w1"
      using 2(2)[OF _ live_raised(2) refl live_raised(3,4)] live_raised(1,5) by simp
    then have q1: "quit_only tc w w1" by (simp add: quit_only_def)
    then show ?thesis by (simp add: live_raised(6))
  qed (auto simp: quit_only_same_heap)
next
  case (3 d self event w)
  show ?case
  proof (cases "heap w self")
    case None
    then show ?thesis by (simp add: Notify_dead)
  next
    case (Some obj)
    show ?thesis
    proof (cases obj)
      case PygameView
      then show ?thesis using Some by (simp add: Notify_view quit_only_same_heap)
    next
      case PygameController
      show ?thesis
      proof (cases "event = UpdateEvent \<and> pygame_up w")
        case True
        let ?w0 = "logged (Notified d self event) w"
        have "quit_only tc w (snd (event_get ?w0))" by (rule quit_only_same_heap) simp
        from quit_only_trans[OF evolves_polled evolves_all(4) this]
        show ?thesis
          using 3(1)[OF Some PygameController _ _ prod.collapse] Some PygameController True
          by (simp add: Notify_controller)
      next
        case False
        then show ?thesis using Some PygameController
          by (auto simp: Notify_controller quit_only_same_heap)
      qed
    next
      case (TickController r)
      then show ?thesis using Some by (auto simp: Notify_tick quit_only_def since_def)
    next
      case (Script n f)
      let ?w1 = "(logged (Notified d self event) w)\<lparr>heap := (heap w)(self \<mapsto> Script (Suc n) f)\<rparr>"
      have ev: "evolves w ?w1" using Some Script by (simp add: evolves_counted)
      have "quit_only tc w ?w1" using Some Script by (auto simp: quit_only_def)
      from quit_only_trans[OF ev evolves_all(4) this 3(2)[OF Some Script]]
      show ?thesis using Some Script by (simp add: Notify_script)
    qed
  qed
next
  case (4 d w)
  then show ?case by simp
next
  case (5 d l as w)
  let ?w1 = "RegisterListener l (logged (Registered l) w)"
  have ev: "evolves w ?w1" by (simp add: evolves_def)
  have "quit_only tc w ?w1" by (rule quit_only_same_heap) simp
  from quit_only_trans[OF ev evolves_all(4) this 5] show ?case by simp
next
  case (6 d l as w)
  let ?w1 = "UnregisterListener l (logged (Unregistered l) w)"
  have ev: "evolves w ?w1" by (simp add: evolves_def)
  have "quit_only tc w ?w1" by (rule quit_only_same_heap) simp
  from quit_only_trans[OF ev evolves_all(4) this 6] show ?case by simp
next
  case (7 d l as w)
  let ?w1 = "let_go l (logged (Released l) w)"
  have ev: "evolves w ?w1" by (rule evolves_trans[OF evolves_logged evolves_let_go])
  have "quit_only tc w ?w1"
    using let_go_tick[of "logged (Released l) w" tc True l] by (auto simp: quit_only_def)
  from quit_only_trans[OF ev evolves_all(4) this 7] show ?case by simp
next
  case (8 d e as w)
  show ?case
  proof (cases d)
    case 0
    then show ?thesis by simp
  next
    case (Suc d')
    show ?thesis
    proof (cases "Post d' e w")
      case (Ok w1)
      have ev: "evolves w w1" using evolves_all(1)[of w d' e] Ok by simp
      have q1: "quit_only tc w w1" using 8(1)[OF Suc] Ok by simp
      from quit_only_trans[OF ev evolves_all(4) q1 8(2)[OF Suc Ok]]
      show ?thesis using Ok Suc by simp
    next
      case (Raised x w1)
      then show ?thesis using 8(1)[OF Suc] Suc by simp
    qed
  qed
qed

lemma flag_ok_falls: "flag_ok tc w w' \<Longrightarrow> falls_by_Quit tc w w'"
  unfolding falls_by_Quit_def
proof (intro allI impI)
  fix b
  assume f: "flag_ok tc w w'" and h: "heap w tc = Some (TickController b)"
  from f have ev: "evolves w w'" and q: "quit_only tc w w'" by (simp_all add: flag_ok_def)
  from evolves_tick[OF ev h]
  show "heap w' tc = Some (TickController b) \<or>
        (b \<and> heap w' tc = Some (TickController False) \<and>
         (\<exists>d'. Notified d' tc QuitEvent \<in> set (since w w')))"
    using q h by (cases b) (auto simp: quit_only_def)
qed

lemma flag_ok_refl [simp]: "flag_ok tc w w"
  by (simp add: flag_ok_def)

lemma flag_ok_trans: "flag_ok tc w w1 \<Longrightarrow> flag_ok tc w1 w2 \<Longrightarrow> flag_ok tc w w2"
  unfolding flag_ok_def by (blast intro: evolves_trans quit_only_trans)

lemma flag_ok_Post: "flag_ok tc w (world_of (Post d e w))"
  by (simp add: flag_ok_def evolves_all(1) quit_only_all(1))

lemma flag_ok_tick: "flag_ok tc w (world_of (tick w))"
  by (simp add: flag_ok_def tick_def quit_only_same_heap)

lemma flag_ok_and_then:
  assumes "flag_ok tc w (world_of r)" "\<And>w1. flag_ok tc w1 (world_of (f w1))"
  shows "flag_ok tc w (world_of (and_then r f))"
proof (cases r)
  case (Ok w1)
  then show ?thesis using assms(1) assms(2)[of w1] by (auto intro: flag_ok_trans)
next
  case (Raised e w1)
  then show ?thesis using assms(1) by simp
qed

lemma flag_ok_loop_body: "flag_ok tc w (world_of (loop_body d w))"
  unfolding loop_body_def
  by (intro flag_ok_and_then flag_ok_Post flag_ok_tick)

lemma flag_ok_run_loop: "run_loop d self w = Some r \<Longrightarrow> flag_ok tc w (world_of r)"
proof (induction rule: run_loop.raw_induct[rotated 1, consumes 1])
  case (1 run_loop d self w r)
  show ?case
  proof (cases "heap w self")
    case None
    then show ?thesis using 1(2) by auto
  next
    case (Some obj)
    show ?thesis
    proof (cases obj)
      case (TickController b)
      show ?thesis
      proof (cases b)
        case True
        show ?thesis
        proof (cases "loop_body d w")
          case (Ok w1)
          then have "run_loop d self w1 = Some r" using 1(2) Some TickController True by simp
          from 1(1)[OF this] flag_ok_loop_body[of tc w d] Ok show ?thesis
            by (auto intro: flag_ok_trans)
        next
          case (Raised e w1)
          then show ?thesis using 1(2) Some TickController True flag_ok_loop_body[of tc w d]
            by auto
        qed
      next
        case False
        then show ?thesis using 1(2) Some TickController by auto
      qed
    qed (use 1(2) Some in auto)
  qed
qed

lemma flag_ok_Run: "Run d self w = Some r \<Longrightarrow> flag_ok tc w (world_of r)"
proof -
  assume "Run d self w = Some r"
  then obtain r0 where r0: "run_loop d self w = Some r0" and r: "r = and_then r0 (Post d QuitCleanupEvent)"
    by (auto simp: Run_def split: option.splits)
  show ?thesis unfolding r
    by (intro flag_ok_and_then flag_ok_Post flag_ok_run_loop[OF r0])
qed

lemma Run_stopped: "Run d self w = Some (Ok w') \<Longrightarrow> heap w' self = Some (TickController False)"
proof -
  assume "Run d self w = Some (Ok w')"
  from Run_Ok[OF this] obtain n w1 where h: "heap w1 self = Some (TickController False)"
    and p: "Post d QuitCleanupEvent w1 = Ok w'" by blast
  have "evolves w1 w'" using evolves_all(1)[of w1 d QuitCleanupEvent] p by simp
  then show ?thesis using h by (rule evolves_stopped)
qed

text \<open>
  C8. The constructor sets \<^verbatim>\<open>running\<close> to true, and so it is when \<^verbatim>\<open>main\<close> calls
  \<^verbatim>\<open>Run\<close>. Registering and unregistering touch no object. Through a broadcast, with
  whatever handlers, and through a whole \<^verbatim>\<open>Run\<close>, however it ends, the flag of a tick
  controller either keeps its value or was true, is now false, and the controller has
  been notified of a \<^verbatim>\<open>QuitEvent\<close> by the bus in between: it falls at most once, never
  rises again, and nothing but the delivery of Quit changes it. When \<^verbatim>\<open>Run\<close> returns,
  the flag is false.
\<close>

theorem running_falls_once_by_Quit:
  "heap (TickController_init self w) self = Some (TickController True) \<and>
   heap (main_setup q) 1 = Some (TickController True) \<and>
   heap (RegisterListener l w) = heap w \<and> heap (UnregisterListener l w) = heap w \<and>
   falls_by_Quit tc w (world_of (Post d e w)) \<and>
   (\<forall>r. Run d self w = Some r \<longrightarrow> falls_by_Quit tc w (world_of r)) \<and>
   (\<forall>w'. Run d self w = Some (Ok w') \<longrightarrow> heap w' self = Some (TickController False))"
  using flag_ok_falls[OF flag_ok_Post, of tc w d e] flag_ok_falls[OF flag_ok_Run, of d self w _ tc]
    Run_stopped[of d self w]
  by (simp add: TickController_init_def main_setup_heap)

theorem running_falls_once_by_Quit_witness:
  "heap quitting 1 = Some (TickController True) \<and>
   Run 3 1 quitting = Some (Ok (world_of (the (Run 3 1 quitting)))) \<and>
   heap (world_of (the (Run 3 1 quitting))) 1 = Some (TickController False) \<and>
   falls_by_Quit 1 quitting (world_of (the (Run 3 1 quitting))) \<and>
   Notified 2 1 QuitEvent \<in> set (since quitting (world_of (the (Run 3 1 quitting))))"
proof -
  have r: "Run 3 1 quitting = Some (Ok (world_of (the (Run 3 1 quitting))))"
    using quitting_run by (rule returned_Some)
  have n: "Notified 2 1 QuitEvent \<in> set (since quitting (world_of (the (Run 3 1 quitting))))"
    using quitting_run_log r by (cases "Run 3 1 quitting") auto
  note t = running_falls_once_by_Quit[of 1 quitting "[]" 0 1 3 UpdateEvent]
  have "falls_by_Quit 1 quitting (world_of (Ok (world_of (the (Run 3 1 quitting)))))"
    using t r by blast
  moreover have "heap (world_of (the (Run 3 1 quitting))) 1 = Some (TickController False)"
    using t r by blast
  ultimately show ?thesis using r n by (simp add: quitting_fields)
qed

section \<open>Listeners that are reclaimed\<close>

lemma reclaim_frame [simp]:
  "heap (reclaim L w) = (heap w)(L := None)" "data (reclaim L w) = delitem (data w) L"
  "log (reclaim L w) = log w" "queue (reclaim L w) = queue w"
  "pins (reclaim L w) = pins w" "orphans (reclaim L w) = orphans w"
  "pygame_up (reclaim L w) = pygame_up w"
  by (simp_all add: reclaim_def)

lemma reclaim_keys: "wf_dict w \<Longrightarrow> keys (reclaim L w) = filter (\<lambda>k. k \<noteq> L) (keys w)"
proof -
  assume "wf_dict w"
  then have d: "distinct (entry_keys (data w))" by (simp add: wf_dict_def)
  have "remove1 L (entry_keys (data w)) = filter (\<lambda>k. k \<noteq> L) (entry_keys (data w))"
    using d by (simp add: distinct_remove1_removeAll removeAll_filter_not_eq) metis
  then show ?thesis
    by (auto simp: keys_def entry_keys_delitem intro: filter_cong)
qed

lemma reclaim_posts_only: "posts_only S w \<Longrightarrow> posts_only S (reclaim L w)"
  by (auto simp: posts_only_def split: if_splits)

lemma reclaim_wf: "wf_dict w \<Longrightarrow> wf_dict (reclaim L w)"
  by (simp add: wf_dict_def entry_keys_delitem)

lemma Register_keys_others:
  "filter (\<lambda>k. k \<noteq> L) (keys (RegisterListener L w)) = filter (\<lambda>k. k \<noteq> L) (keys w)"
  by (simp add: keys_def RegisterListener_def entry_keys_setitem)

lemma reclaim_entry: "wf_dict w \<Longrightarrow> L \<notin> set (entry_keys (data (reclaim L w)))"
  by (simp add: wf_dict_def entry_keys_delitem)

text \<open>
  C9. The registry holds its listeners weakly. Registering changes no object, so it is
  never what keeps a listener alive: when the owners of \<open>L\<close> let go of it, \<open>L\<close> is
  reclaimed, registered or not, and the registry is then as if \<open>L\<close> had never been in
  it, with the other listeners in their order. A broadcast after that never notifies
  \<open>L\<close>, raises no \<^verbatim>\<open>RuntimeError\<close> from the dictionary, and when it returns it has
  notified exactly the other listeners.
\<close>

theorem reclaimed_listener_leaves_registry:
  "heap (RegisterListener L w) = heap w \<and>
   (wf_dict w \<longrightarrow>
      keys (reclaim L (RegisterListener L w)) = filter (\<lambda>k. k \<noteq> L) (keys w) \<and>
      L \<notin> set (entry_keys (data (reclaim L (RegisterListener L w))))) \<and>
   (wf_dict w \<and> posts_only UNIV w \<longrightarrow>
      seen L (since (reclaim L w) (world_of (Post d e (reclaim L w)))) = [] \<and>
      raised (Post d e (reclaim L w)) \<noteq> Some RuntimeError \<and>
      (\<forall>w'. Post d e (reclaim L w) = Ok w' \<longrightarrow>
         direct d (since (reclaim L w) w') = map (\<lambda>l. (l, e)) (filter (\<lambda>k. k \<noteq> L) (keys w))))"
proof -
  have a: "keys (reclaim L (RegisterListener L w)) = filter (\<lambda>k. k \<noteq> L) (keys w) \<and>
      L \<notin> set (entry_keys (data (reclaim L (RegisterListener L w))))" if "wf_dict w"
    using reclaim_keys[OF wf_dict_Register[OF that], of L L]
      reclaim_entry[OF wf_dict_Register[OF that], of L L]
    by (simp add: Register_keys_others)
  have b: "seen L (since (reclaim L w) (world_of (Post d e (reclaim L w)))) = [] \<and>
      raised (Post d e (reclaim L w)) \<noteq> Some RuntimeError \<and>
      (\<forall>w'. Post d e (reclaim L w) = Ok w' \<longrightarrow>
         direct d (since (reclaim L w) w') = map (\<lambda>l. (l, e)) (filter (\<lambda>k. k \<noteq> L) (keys w)))"
    if wf: "wf_dict w" and po: "posts_only UNIV w"
  proof -
    have po': "posts_only UNIV (reclaim L w)" using po by (rule reclaim_posts_only)
    have k: "keys (reclaim L w) = filter (\<lambda>k. k \<noteq> L) (keys w)" using wf by (rule reclaim_keys)
    then have n: "L \<notin> set (keys (reclaim L w))" by simp
    show ?thesis
      using Post_unregistered(1)[OF po' n, of d e] quiet_all(1)[of UNIV "reclaim L w" d e] po'
        Post_direct[of UNIV "reclaim L w" d e] k
      by auto
  qed
  show ?thesis using a b by simp
qed

theorem reclaimed_listener_leaves_registry_witness:
  "wf_dict demo \<and> posts_only UNIV demo \<and> 2 \<in> set (keys demo) \<and>
   keys (reclaim 2 (RegisterListener 2 demo)) = [0, 1, 3] \<and>
   returned (Post 3 DrawEvent (reclaim 2 demo)) \<and>
   seen 2 (since (reclaim 2 demo) (world_of (Post 3 DrawEvent (reclaim 2 demo)))) = [] \<and>
   direct 3 (since (reclaim 2 demo) (world_of (Post 3 DrawEvent (reclaim 2 demo)))) =
     [(0, DrawEvent), (1, DrawEvent), (3, DrawEvent)]"
proof -
  have r: "Post 3 DrawEvent (reclaim 2 demo) = Ok (world_of (Post 3 DrawEvent (reclaim 2 demo)))"
    using demo_reclaimed by (rule returned_Ok)
  show ?thesis
    using reclaimed_listener_leaves_registry[of 2 demo 3 DrawEvent] demo_wf demo_posts_only r
      demo_reclaimed
    by (simp add: demo_keys)
qed

section \<open>A broadcast inside a broadcast\<close>

lemma quit_stops_silent: "since w w' = [] \<Longrightarrow> quit_stops tc w w'"
  by (simp add: quit_stops_def)

lemma quit_stops_trans:
  assumes "evolves w w1" "evolves w1 w2" "quit_stops tc w w1" "quit_stops tc w1 w2"
  shows "quit_stops tc w w2"
  unfolding quit_stops_def
proof (intro allI impI)
  fix b
  assume h: "heap w tc = Some (TickController b)"
    and n: "\<exists>d'. Notified d' tc QuitEvent \<in> set (since w w2)"
  have s: "since w w2 = since w w1 @ since w1 w2" using assms(1,2) by (rule since_trans)
  from n s consider "\<exists>d'. Notified d' tc QuitEvent \<in> set (since w w1)"
    | "\<exists>d'. Notified d' tc QuitEvent \<in> set (since w1 w2)" by auto
  then show "heap w2 tc = Some (TickController False)"
  proof cases
    case 1
    then have "heap w1 tc = Some (TickController False)" using assms(3) h by (simp add: quit_stops_def)
    with assms(2) show ?thesis by (rule evolves_stopped)
  next
    case 2
    from evolves_tick[OF assms(1) h] obtain b1 where "heap w1 tc = Some (TickController b1)" by blast
    then show ?thesis using assms(4) 2 by (simp add: quit_stops_def)
  qed
qed

lemma quit_stops_pass:
  assumes "quit_stops tc (pin l w) w1"
  shows "quit_stops tc w (unpin l w1)"
  using assms unpin_tick[of w1 tc False l] by (simp add: quit_stops_def)

lemma quit_stops_all:
  "quit_stops tc w (world_of (Post d e w))"
  "quit_stops tc w (world_of (for_keys d e it w))"
  "quit_stops tc w (world_of (Notify d l e w))"
  "quit_stops tc w (world_of (perform d as w))"
proof (induct d e w and d e it w and d l e w and d as w rule: Post_for_keys_Notify_perform.induct)
  case (1 d event w)
  let ?w0 = "logged (Posted d event) w"
  have "quit_stops tc w ?w0" by (simp add: quit_stops_def)
  from quit_stops_trans[OF evolves_logged evolves_all(2) this 1]
  show ?case by (simp add: Post.simps quit_stops_def)
next
  case (2 d event it w)
  show ?case
  proof (cases rule: for_keys_cases[of w it d event])
    case (dead i l n)
    then show ?thesis using 2(1)[OF _ dead(2) refl dead(3,4)] by simp
  next
    case (live_ok i l n obj w1)
    let ?it = "\<lparr>di_used = di_used it, di_pos = Suc i, len = n\<rparr>"
    have "quit_stops tc (pin l w) w1"
      using 2(2)[OF _ live_ok(2) refl live_ok(3,4)] live_ok(1,5) by simp
    then have q1: "quit_stops tc w (unpin l w1)" by (rule quit_stops_pass)
    have q2: "quit_stops tc (unpin l w1) (world_of (for_keys d event ?it (unpin l w1)))"
      using 2(3)[OF _ live_ok(2) refl live_ok(3,4,5)] live_ok(1) by simp
    from quit_stops_trans[OF since_pass(2)[OF live_ok(5)] evolves_all(2) q1 q2]
    show ?thesis by (simp add: live_ok(6))
  next
    case (live_raised i l n obj x w1)
    have "quit_stops tc (pin l w) w1"
      using 2(2)[OF _ live_raised(2) refl live_raised(3,4)] live_raised(1,5) by simp
    then have q1: "quit_stops tc w w1" by (simp add: quit_stops_def)
    then show ?thesis by (simp add: live_raised(6))
  qed (auto simp: quit_stops_def)
next
  case (3 d self event w)
  show ?case
  proof (cases "heap w self")
    case None
    then show ?thesis by (simp add: Notify_dead quit_stops_def)
  next
    case (Some obj)
    show ?thesis
    proof (cases obj)
      case PygameView
      then show ?thesis using Some by (auto simp: Notify_view quit_stops_def since_def)
    next
      case PygameController
      show ?thesis
      proof (cases "event = UpdateEvent \<and> pygame_up w")
        case True
        let ?w0 = "logged (Notified d self event) w"
        have "quit_stops tc w (snd (event_get ?w0))" using True by (simp add: quit_stops_def)
        from quit_stops_trans[OF evolves_polled evolves_all(4) this]
        show ?thesis
          using 3(1)[OF Some PygameController _ _ prod.collapse] Some PygameController True
          by (simp add: Notify_controller)
      next
        case False
        then show ?thesis using Some PygameController
          by (auto simp: Notify_controller quit_stops_def since_def)
      qed
    next
      case (TickController r)
      then show ?thesis using Some by (auto simp: Notify_tick quit_stops_def since_def)
    next
      case (Script n f)
      let ?w1 = "(logged (Notified d self event) w)\<lparr>heap := (heap w)(self \<mapsto> Script (Suc n) f)\<rparr>"
      have ev: "evolves w ?w1" using Some Script by (simp add: evolves_counted)
      have "quit_stops tc w ?w1" using Some Script by (auto simp: quit_stops_def)
      from quit_stops_trans[OF ev evolves_all(4) this 3(2)[OF Some Script]]
      show ?thesis using Some Script by (simp add: Notify_script)
    qed
  qed
next
  case (4 d w)
  then show ?case by (simp add: quit_stops_def)
next
  case (5 d l as w)
  let ?w1 = "RegisterListener l (logged (Registered l) w)"
  have ev: "evolves w ?w1" by (simp add: evolves_def)
  have "quit_stops tc w ?w1" by (simp add: quit_stops_def since_def)
  from quit_stops_trans[OF ev evolves_all(4) this 5] show ?case by simp
next
  case (6 d l as w)
  let ?w1 = "UnregisterListener l (logged (Unregistered l) w)"
  have ev: "evolves w ?w1" by (simp add: evolves_def)
  have "quit_stops tc w ?w1" by (simp add: quit_stops_def since_def)
  from quit_stops_trans[OF ev evolves_all(4) this 6] show ?case by simp
next
  case (7 d l as w)
  let ?w1 = "let_go l (logged (Released l) w)"
  have ev: "evolves w ?w1" by (rule evolves_trans[OF evolves_logged evolves_let_go])
  have "quit_stops tc w ?w1" by (simp add: quit_stops_def since_def)
  from quit_stops_trans[OF ev evolves_all(4) this 7] show ?case by simp
next
  case (8 d e as w)
  show ?case
  proof (cases d)
    case 0
    then show ?thesis by (simp add: quit_stops_def)
  next
    case (Suc d')
    show ?thesis
    proof (cases "Post d' e w")
      case (Ok w1)
      have ev: "evolves w w1" using evolves_all(1)[of w d' e] Ok by simp
      have q1: "quit_stops tc w w1" using 8(1)[OF Suc] Ok by simp
      from quit_stops_trans[OF ev evolves_all(4) q1 8(2)[OF Suc Ok]]
      show ?thesis using Ok Suc by simp
    next
      case (Raised x w1)
      then show ?thesis using 8(1)[OF Suc] Suc by simp
    qed
  qed
qed

lemma quit_reaches_silent: "since w w' = [] \<Longrightarrow> quit_reaches L w w'"
  by (simp add: quit_reaches_def)

lemma quit_reaches_trans:
  assumes "evolves w w1" "evolves w1 w2" "quit_reaches L w w1" "quit_reaches L w1 w2"
  shows "quit_reaches L w w2"
  using assms(3,4) since_trans[OF assms(1,2)] by (auto simp: quit_reaches_def)

lemma evolves_perform_Ok: "perform d as w = Ok w' \<Longrightarrow> evolves w w'"
  using evolves_all(4)[of w d as] by simp

lemma quit_reaches_all:
  "posts_only UNIV w \<Longrightarrow> L \<in> set (keys w) \<Longrightarrow> Post d e w = Ok w' \<Longrightarrow> quit_reaches L w w'"
  "posts_only UNIV w \<Longrightarrow> L \<in> set (keys w) \<Longrightarrow> for_keys d e it w = Ok w' \<Longrightarrow> quit_reaches L w w'"
  "posts_only UNIV w \<Longrightarrow> L \<in> set (keys w) \<Longrightarrow> Notify d l e w = Ok w' \<Longrightarrow> quit_reaches L w w'"
  "posts_only UNIV w \<Longrightarrow> L \<in> set (keys w) \<Longrightarrow> perform d as w = Ok w' \<Longrightarrow>
     \<forall>a\<in>set as. \<exists>e'\<in>UNIV. a = PostAct e' \<Longrightarrow> quit_reaches L w w'"
proof (induct d e w and d e it w and d l e w and d as w arbitrary: w' and w' and w' and w'
    rule: Post_for_keys_Notify_perform.induct)
  case (1 d event w)
  let ?w0 = "logged (Posted d event) w"
  obtain w1 where r: "for_keys d event (dictiter_new (data w)) ?w0 = Ok w1"
    and w': "w' = commit_removals w1"
    using 1(4) unfolding Post.simps by (auto simp: leave_Ok)
  have e1: "evolves ?w0 w1" using evolves_all(2)[of ?w0 d event "dictiter_new (data w)"] r by simp
  have s: "since w w' = Posted d event # since ?w0 w1"
    using since_trans[OF evolves_logged e1] w' by simp
  have q: "quit_reaches L ?w0 w1" using 1(1)[OF _ _ r] 1(2,3) by simp
  have "Notified d L QuitEvent \<in> set (since w w')" if "event = QuitEvent"
    using Post_direct[OF _ 1(2,4)] 1(3) that direct_mem[of L QuitEvent d "since w w'"] by auto
  then show ?case using q s by (auto simp: quit_reaches_def)
next
  case (2 d event it w)
  note po = 2(4) and L = 2(5) and res = 2(6)
  show ?case
  proof (cases rule: for_keys_cases[of w it d event])
    case size
    then show ?thesis using res by simp
  next
    case finished
    then show ?thesis using res by (simp add: quit_reaches_def)
  next
    case (extra i l)
    then show ?thesis using res by simp
  next
    case (dead i l n)
    then show ?thesis using 2(1)[OF _ dead(2) refl dead(3,4) po L] res by simp
  next
    case (live_ok i l n obj w1)
    let ?it = "\<lparr>di_used = di_used it, di_pos = Suc i, len = n\<rparr>"
    have po0: "posts_only UNIV (pin l w)" using po by (rule evolves_posts_only[OF evolves_pin])
    have sr: "same_registry (pin l w) w1"
      using quiet_all(2)[of UNIV "pin l w" d l event] po0 live_ok(5) by simp
    have p: "pins w1 = l # pins w" using pins_all(3)[OF live_ok(5)] by simp
    have k1: "keys (unpin l w1) = keys w"
      using same_registry_pass(1)[OF sr p] by (rule same_registry_keys)
    have e2: "evolves w (unpin l w1)" by (rule since_pass(2)[OF live_ok(5)])
    have po1: "posts_only UNIV (unpin l w1)" using e2 po by (rule evolves_posts_only)
    have r1: "for_keys d event ?it (unpin l w1) = Ok w'"
      using live_ok(6) res by simp
    have e3: "evolves (unpin l w1) w'" using evolves_all(2)[of "unpin l w1" d event ?it] r1 by simp
    have "quit_reaches L (pin l w) w1"
      using 2(2)[OF _ live_ok(2) refl live_ok(3,4) po0 _ live_ok(5)] live_ok(1) L by simp
    then have q1: "quit_reaches L w (unpin l w1)" by (simp add: quit_reaches_def)
    have q2: "quit_reaches L (unpin l w1) w'"
      using 2(3)[OF _ live_ok(2) refl live_ok(3,4,5) po1 _ r1] live_ok(1) L k1 by simp
    from quit_reaches_trans[OF e2 e3 q1 q2] show ?thesis .
  next
    case (live_raised i l n obj x w1)
    then show ?thesis using res by simp
  qed
next
  case (3 d self event w)
  note po = 3(3) and L = 3(4) and res = 3(5)
  show ?case
  proof (cases "heap w self")
    case None
    then show ?thesis using res by (simp add: Notify_dead quit_reaches_def)
  next
    case (Some obj)
    show ?thesis
    proof (cases obj)
      case PygameView
      then show ?thesis using Some res
        by (auto simp: Notify_view quit_reaches_def since_def split: if_splits)
    next
      case PygameController
      show ?thesis
      proof (cases "event = UpdateEvent \<and> pygame_up w")
        case True
        let ?w0 = "logged (Notified d self event) w"
        let ?w1 = "snd (event_get ?w0)"
        have r: "perform d (controller_posts (fst (event_get ?w0))) ?w1 = Ok w'"
          using res Some PygameController True by (simp add: Notify_controller)
        have po1: "posts_only UNIV ?w1" using po by (rule evolves_posts_only[OF evolves_polled])
        have k1: "L \<in> set (keys ?w1)" using L by (simp add: keys_def)
        have e1: "evolves ?w1 w'" using r by (rule evolves_perform_Ok)
        have cp: "\<forall>a\<in>set (controller_posts (fst (event_get ?w0))). \<exists>e'\<in>UNIV. a = PostAct e'"
          by (rule controller_posts_only) simp
        have "quit_reaches L w ?w1" by (simp add: quit_reaches_def)
        from quit_reaches_trans[OF evolves_polled e1 this
            3(1)[OF Some PygameController _ _ prod.collapse po1 k1 r cp]] True
        show ?thesis by simp
      next
        case False
        then show ?thesis using Some PygameController res
          by (auto simp: Notify_controller quit_reaches_def since_def split: if_splits)
      qed
    next
      case (TickController r)
      then show ?thesis using Some res
        by (auto simp: Notify_tick quit_reaches_def since_def split: if_splits)
    next
      case (Script n f)
      let ?w1 = "(logged (Notified d self event) w)\<lparr>heap := (heap w)(self \<mapsto> Script (Suc n) f)\<rparr>"
      have ev: "evolves w ?w1" using Some Script by (simp add: evolves_counted)
      have r: "perform d (f n event) ?w1 = Ok w'" using res Some Script by (simp add: Notify_script)
      have po1: "posts_only UNIV ?w1" using ev po by (rule evolves_posts_only)
      have k1: "L \<in> set (keys ?w1)" using L Some by (simp add: keys_live_upd)
      have e1: "evolves ?w1 w'" using r by (rule evolves_perform_Ok)
      have acts: "\<forall>a\<in>set (f n event). \<exists>e'\<in>UNIV. a = PostAct e'"
        using po Some Script unfolding posts_only_def by blast
      have "quit_reaches L w ?w1" by (simp add: quit_reaches_def)
      from quit_reaches_trans[OF ev e1 this 3(2)[OF Some Script po1 k1 r acts]] show ?thesis .
    qed
  qed
next
  case (4 d w)
  then show ?case by (simp add: quit_reaches_def)
next
  case (5 d l as w)
  then show ?case by simp
next
  case (6 d l as w)
  then show ?case by simp
next
  case (7 d l as w)
  then show ?case by simp
next
  case (8 d e as w)
  note po = 8(3) and L = 8(4) and res = 8(5)
  from res obtain d0 w1 where d: "d = Suc d0" and p: "Post d0 e w = Ok w1" and r: "perform d as w1 = Ok w'"
    by (auto split: nat.splits outcome.splits)
  have e1: "evolves w w1" using evolves_all(1)[of w d0 e] p by simp
  have e2: "evolves w1 w'" using r by (rule evolves_perform_Ok)
  have k1: "keys w1 = keys w"
    using quiet_all(1)[of UNIV w d0 e] po p by (simp add: same_registry_keys)
  have po1: "posts_only UNIV w1" using e1 po by (rule evolves_posts_only)
  have acts: "\<forall>a\<in>set as. \<exists>e'\<in>UNIV. a = PostAct e'" using 8(6) by simp
  have L1: "L \<in> set (keys w1)" using L k1 by simp
  from quit_reaches_trans[OF e1 e2 8(1)[OF d po L p] 8(2)[OF d p po1 L1 r acts]]
  show ?case .
qed

text \<open>
  C10. Of a broadcast of \<^verbatim>\<open>UpdateEvent\<close> that returns, in a world where a tick
  controller is registered: if a handler has called \<^verbatim>\<open>Post\<close> with a \<^verbatim>\<open>QuitEvent\<close>
  during it, that call was nested in this one, it has notified every registered
  listener of the \<^verbatim>\<open>QuitEvent\<close> before this one returned, and the controller's flag is
  false in the world this one returns.
\<close>

theorem nested_Quit_completes_before_return:
  assumes "posts_only UNIV w" and "tc \<in> set (keys w)" and "heap w tc = Some (TickController b)"
    and "Post d UpdateEvent w = Ok w'" and "Posted d' QuitEvent \<in> set (since w w')"
  shows "d' < d \<and> (\<forall>L\<in>set (keys w). Notified d' L QuitEvent \<in> set (since w w')) \<and>
         heap w' tc = Some (TickController False)"
proof -
  obtain xs where xs: "since w w' = Posted d UpdateEvent # xs"
    "\<forall>x\<in>set xs. nested d x \<or> (\<exists>l. x = Notified d l UpdateEvent)"
    using depth_all(1)[of w d UpdateEvent] assms(4) by auto
  have "Posted d' QuitEvent \<in> set xs" using assms(5) xs(1) by simp
  then have "nested d (Posted d' QuitEvent)" using xs(2) by blast
  then have less: "d' < d" by simp
  have all: "\<forall>L\<in>set (keys w). Notified d' L QuitEvent \<in> set (since w w')"
    using quit_reaches_all(1)[OF assms(1) _ assms(4)] assms(5) by (auto simp: quit_reaches_def)
  then have "\<exists>d'. Notified d' tc QuitEvent \<in> set (since w w')" using assms(2) by blast
  then have "heap w' tc = Some (TickController False)"
    using quit_stops_all(1)[of tc w d UpdateEvent] assms(3,4) by (simp add: quit_stops_def)
  with less all show ?thesis by simp
qed

theorem nested_Quit_completes_before_return_witness:
  "posts_only UNIV quitting \<and> 1 \<in> set (keys quitting) \<and>
   heap quitting 0 = Some PygameController \<and> heap quitting 1 = Some (TickController True) \<and>
   returned (Post 3 UpdateEvent quitting) \<and>
   Posted 2 QuitEvent \<in> set (since quitting (world_of (Post 3 UpdateEvent quitting))) \<and>
   keys quitting = [0, 1, 2, 3] \<and>
   Notified 2 0 QuitEvent \<in> set (since quitting (world_of (Post 3 UpdateEvent quitting))) \<and>
   Notified 2 1 QuitEvent \<in> set (since quitting (world_of (Post 3 UpdateEvent quitting))) \<and>
   Notified 2 2 QuitEvent \<in> set (since quitting (world_of (Post 3 UpdateEvent quitting))) \<and>
   Notified 2 3 QuitEvent \<in> set (since quitting (world_of (Post 3 UpdateEvent quitting))) \<and>
   heap (world_of (Post 3 UpdateEvent quitting)) 1 = Some (TickController False)"
proof -
  have po: "posts_only UNIV quitting"
    by (auto simp: posts_only_def quitting_fields echo_def split: if_splits)
  have k: "1 \<in> set (keys quitting)" by (simp add: keys_def quitting_fields)
  have h: "heap quitting 1 = Some (TickController True)" by (simp add: quitting_fields)
  have p: "Post 3 UpdateEvent quitting = Ok (world_of (Post 3 UpdateEvent quitting))"
    using quitting_Update(1) by (rule returned_Ok)
  have q: "Posted 2 QuitEvent \<in> set (since quitting (world_of (Post 3 UpdateEvent quitting)))"
    by (simp add: quitting_Update_log)
  have ks: "keys quitting = [0, 1, 2, 3]" by (simp add: keys_def quitting_fields)
  show ?thesis
    using nested_Quit_completes_before_return[OF po k h p q] po k h quitting_Update(1) q ks
    by (simp add: quitting_fields)
qed

end
